theory Spec2Isabelle
  imports Main "HOL-Library.Word"
begin

unbundle bit_operations_syntax

section \<open>Wire protocol (common/protocol.h)\<close>

text \<open>
  Bytes are 8-bit words.  The chunk size of the source is the constant
  \<open>CHUNK_SIZE\<close>; every function below takes the chunk size as its first
  argument \<open>cs\<close>, so that the same definition can be run at a small chunk size,
  and every general theorem holds at \<open>cs = CHUNK_SIZE\<close> in particular.

  The header is the struct \<open>MessageHeader\<close>: an \<open>int\<close>-sized enum \<open>type\<close> and
  a \<open>size_t\<close> field \<open>length\<close> (LP64: 32 and 64 bits).
\<close>

type_synonym byte = "8 word"

definition CHUNK_SIZE :: nat where
  "CHUNK_SIZE = 1048576"

record MessageHeader =
  mtype :: "32 word"
  mlength :: "64 word"

definition MSG_READ :: "32 word" where "MSG_READ = 0"
definition MSG_WRITE_PATH :: "32 word" where "MSG_WRITE_PATH = 1"
definition MSG_WRITE :: "32 word" where "MSG_WRITE = 2"
definition HEARTBEAT :: "32 word" where "HEARTBEAT = 3"

text \<open>
  The object representation of a header on the wire (\<open>send(fd, &header,
  sizeof(MessageHeader))\<close>) depends on the platform, so it is a parameter:
  \<open>hsz\<close> is \<open>sizeof(MessageHeader)\<close>, \<open>enc\<close> gives the bytes of a header, and
  \<open>upd h bs\<close> is the header object \<open>h\<close> after its first \<open>length bs\<close> bytes have
  been overwritten with \<open>bs\<close> (what \<open>recv(fd, &header, ...)\<close> does).
\<close>

record codec =
  hsz :: nat
  enc :: "MessageHeader \<Rightarrow> byte list"
  upd :: "MessageHeader \<Rightarrow> byte list \<Rightarrow> MessageHeader"

definition wire_ok :: "codec \<Rightarrow> bool" where
  "wire_ok c \<longleftrightarrow> 0 < hsz c \<and>
     (\<forall>h. length (enc c h) = hsz c) \<and> (\<forall>h0 h. upd c h0 (enc c h) = h)"

text \<open>
  The LP64 little-endian layout as a concrete codec: 4 bytes of type, 4 bytes of
  padding, 8 bytes of length.
\<close>

definition enc_word :: "nat \<Rightarrow> 'a::len word \<Rightarrow> byte list" where
  "enc_word k w = map (\<lambda>i. ucast (drop_bit (8 * i) w)) [0..<k]"

definition dec_word :: "byte list \<Rightarrow> 'a::len word" where
  "dec_word bs = word_of_int (horner_sum uint 256 bs)"

definition lp64_enc :: "MessageHeader \<Rightarrow> byte list" where
  "lp64_enc h = enc_word 4 (mtype h) @ replicate 4 0 @ enc_word 8 (mlength h)"

definition lp64_codec :: codec where
  "lp64_codec = \<lparr> hsz = 16, enc = lp64_enc,
     upd = (\<lambda>h0 bs. let obj = take 16 bs @ drop (length bs) (lp64_enc h0)
              in \<lparr> mtype = dec_word (take 4 obj), mlength = dec_word (drop 8 obj) \<rparr>) \<rparr>"

section \<open>Client: the striped write (myfs_write)\<close>

text \<open>
  \<open>servers\<close> holds a socket descriptor per lane, \<open>-1\<close> for a dead lane.  What
  the client has sent on each lane is recorded as a list of frames (header and
  payload).  Whether a send goes through is decided by the network, a parameter
  \<open>link\<close>: \<open>link i m\<close> is the fate of the \<open>m\<close>-th frame of this call on lane \<open>i\<close>
  (frame 0 is the path, frame \<open>k + 1\<close> the chunk of stride \<open>k\<close>).
\<close>

datatype send_result = SendOK | HeaderFails | DataFails

type_synonym frame = "MessageHeader \<times> byte list"

record wstate =
  w_servers :: "int list"
  w_sent :: "frame list list"
  w_log :: "string list"

definition stride_size :: "nat \<Rightarrow> nat \<Rightarrow> nat" where
  "stride_size cs n = (if n = 1 then cs else cs * (n - 1))"

definition total_strides :: "nat \<Rightarrow> nat \<Rightarrow> nat \<Rightarrow> nat" where
  "total_strides cs n sz =
     sz div stride_size cs n + (if sz mod stride_size cs n > 0 then 1 else 0)"

text \<open>The two request headers of the write: \<open>path_header\<close> and \<open>data_header\<close>.\<close>

definition path_header :: "byte list \<Rightarrow> MessageHeader" where
  "path_header path = \<lparr> mtype = MSG_WRITE_PATH, mlength = of_nat (length path) \<rparr>"

definition data_header :: "nat \<Rightarrow> MessageHeader" where
  "data_header cs = \<lparr> mtype = MSG_WRITE, mlength = of_nat cs \<rparr>"

text \<open>Step 2 of the source: the path frame, lane by lane.\<close>

definition send_path :: "(nat \<Rightarrow> nat \<Rightarrow> send_result) \<Rightarrow> byte list \<Rightarrow> wstate \<Rightarrow> nat \<Rightarrow> wstate" where
  "send_path link path st i =
     (if w_servers st ! i \<noteq> -1 then
        (case link i 0 of
           HeaderFails \<Rightarrow>
             st\<lparr> w_servers := (w_servers st)[i := -1],
                 w_log := w_log st @ [''myfs_write: Failed to send path header to server''] \<rparr>
         | DataFails \<Rightarrow>
             st\<lparr> w_servers := (w_servers st)[i := -1],
                 w_log := w_log st @ [''myfs_write: Failed to send path to server''] \<rparr>
         | SendOK \<Rightarrow>
             st\<lparr> w_sent := (w_sent st)[i := w_sent st ! i @
                         [(path_header path, path)]],
                 w_log := w_log st @ [''myfs_write: Sent path to server''] \<rparr>)
      else st)"

text \<open>
  The stride buffer \<open>data_chunks_buf\<close>: \<open>stride_size\<close> zero bytes, overwritten
  from the front with the bytes of the input that belong to this stride.
\<close>

definition bytes_in_this_stride :: "nat \<Rightarrow> nat \<Rightarrow> nat \<Rightarrow> nat \<Rightarrow> nat" where
  "bytes_in_this_stride cs n sz cur = min (sz - cur) (stride_size cs n)"

definition data_chunks_buf :: "nat \<Rightarrow> nat \<Rightarrow> byte list \<Rightarrow> nat \<Rightarrow> byte list" where
  "data_chunks_buf cs n b cur =
     (let m = bytes_in_this_stride cs n (length b) cur
      in take m (drop cur b) @ replicate (stride_size cs n - m) 0)"

text \<open>
  The parity loop: for each data block \<open>i < n - 1\<close> and each byte \<open>j < cs\<close>,
  \<open>parity_chunk[j] ^= data_chunk_start[j]\<close>, starting from \<open>cs\<close> zero bytes.
  For \<open>n = 1\<close> the loop is not entered.
\<close>

definition xor_block :: "nat \<Rightarrow> byte list \<Rightarrow> nat \<Rightarrow> byte list \<Rightarrow> byte list" where
  "xor_block cs dbuf i p = map (\<lambda>j. p ! j XOR dbuf ! (i * cs + j)) [0..<cs]"

definition parity_chunk :: "nat \<Rightarrow> nat \<Rightarrow> byte list \<Rightarrow> byte list" where
  "parity_chunk cs n dbuf =
     (if n > 1 then fold (xor_block cs dbuf) [0..<n - 1] (replicate cs 0)
      else replicate cs 0)"

text \<open>Which block lane \<open>i\<close> is sent: the branch on \<open>n == 1\<close>, \<open>i < n - 1\<close>, else parity.\<close>

definition chunk_to_send :: "nat \<Rightarrow> nat \<Rightarrow> nat \<Rightarrow> byte list \<Rightarrow> byte list \<Rightarrow> byte list" where
  "chunk_to_send cs n i dbuf par =
     (if n = 1 then take cs dbuf
      else if i < n - 1 then take cs (drop (i * cs) dbuf)
      else par)"

text \<open>One sender thread of a stride (the lambda of the source).\<close>

definition send_chunk :: "nat \<Rightarrow> (nat \<Rightarrow> nat \<Rightarrow> send_result) \<Rightarrow> nat \<Rightarrow> byte list \<Rightarrow> wstate \<Rightarrow> nat \<Rightarrow> wstate" where
  "send_chunk cs link k chunk st i =
     (case link i (Suc k) of
        HeaderFails \<Rightarrow>
          st\<lparr> w_servers := (w_servers st)[i := -1],
              w_log := w_log st @ [''myfs_write: Failed to send header to server''] \<rparr>
      | DataFails \<Rightarrow>
          st\<lparr> w_servers := (w_servers st)[i := -1],
              w_log := w_log st @ [''myfs_write: Failed to send data to server''] \<rparr>
      | SendOK \<Rightarrow>
          st\<lparr> w_sent := (w_sent st)[i := w_sent st ! i @
                      [(data_header cs, chunk)]],
              w_log := w_log st @ [''myfs_write: Successfully sent chunk to server''] \<rparr>)"

text \<open>
  One stride: build the buffer, compute parity, start one sender per live lane
  and join them.  The senders touch only their own lane, so they are run in lane
  order.
\<close>

definition send_stride :: "nat \<Rightarrow> nat \<Rightarrow> (nat \<Rightarrow> nat \<Rightarrow> send_result) \<Rightarrow> byte list \<Rightarrow> nat \<Rightarrow> nat \<times> wstate \<Rightarrow> nat \<times> wstate" where
  "send_stride cs n link b k cst =
     (let cur = fst cst; st = snd cst;
          dbuf = data_chunks_buf cs n b cur;
          par = parity_chunk cs n dbuf;
          st1 = st\<lparr> w_log := w_log st @ [''myfs_write: Processing stride''] \<rparr>;
          st2 = fold (\<lambda>i s. if w_servers st1 ! i \<noteq> -1
                              then send_chunk cs link k (chunk_to_send cs n i dbuf par) s i
                              else s) [0..<n] st1
      in (cur + bytes_in_this_stride cs n (length b) cur,
          st2\<lparr> w_log := w_log st2 @ [''myfs_write: Completed stride''] \<rparr>))"

text \<open>
  For reference in the statements below: the chunk that lane \<open>i\<close> is sent in
  stride \<open>k\<close> of a write of \<open>b\<close>, and all the frames of lane \<open>i\<close>.
\<close>

definition lane_chunk :: "nat \<Rightarrow> nat \<Rightarrow> byte list \<Rightarrow> nat \<Rightarrow> nat \<Rightarrow> byte list" where
  "lane_chunk cs n b i k =
     (let dbuf = data_chunks_buf cs n b (k * stride_size cs n)
      in chunk_to_send cs n i dbuf (parity_chunk cs n dbuf))"

definition lane_frames :: "nat \<Rightarrow> nat \<Rightarrow> byte list \<Rightarrow> byte list \<Rightarrow> nat \<Rightarrow> frame list" where
  "lane_frames cs n path b i =
     (path_header path, path) #
       map (Pair (data_header cs)) (map (lane_chunk cs n b i) [0..<total_strides cs n (length b)])"

text \<open>
  The words of the specification for the parity invariant: data chunk \<open>d\<close> of
  stride \<open>k\<close> is the \<open>d\<close>-th block of \<open>cs\<close> bytes of the zero-padded stride
  buffer, and \<open>xor_all [x\<^sub>0, \<dots>, x\<^sub>m]\<close> is \<open>x\<^sub>0 XOR \<dots> XOR x\<^sub>m\<close>.
\<close>

definition data_chunk :: "nat \<Rightarrow> nat \<Rightarrow> byte list \<Rightarrow> nat \<Rightarrow> nat \<Rightarrow> byte list" where
  "data_chunk cs n b k d = take cs (drop (d * cs) (data_chunks_buf cs n b (k * stride_size cs n)))"

definition xor_all :: "byte list \<Rightarrow> byte" where
  "xor_all xs = foldr (XOR) xs 0"

text \<open>
  The local backing file of the client, for the pass-through of a write at a
  nonzero offset: \<open>pwrite\<close> is the system call, a parameter that gives the
  returned count (or \<open>-1\<close>) and the file after the call.  The \<open>ssize_t\<close> it
  returns is converted to the \<open>int\<close> that \<open>myfs_write\<close> returns.
\<close>

definition to_int32 :: "int \<Rightarrow> int" where
  "to_int32 x = sint (word_of_int x :: 32 word)"

record 'f wresult =
  w_ret :: int
  w_state :: wstate
  w_local :: 'f

definition myfs_write ::
  "nat \<Rightarrow> (nat \<Rightarrow> nat \<Rightarrow> send_result) \<Rightarrow> ('f \<Rightarrow> byte list \<Rightarrow> int \<Rightarrow> int \<times> 'f) \<Rightarrow>
   byte list \<Rightarrow> byte list \<Rightarrow> int \<Rightarrow> 'f \<Rightarrow> wstate \<Rightarrow> 'f wresult" where
  "myfs_write cs link pwrite path b offset fh st =
     (let n = length (w_servers st) in
      if offset \<noteq> 0 then
        (let r = pwrite fh b offset in
         \<lparr> w_ret = to_int32 (fst r),
           w_state = st\<lparr> w_log := w_log st @
             [''Warning: myfs_write only supports offset=0 in this simplified version. Falling back to local write.''] \<rparr>,
           w_local = snd r \<rparr>)
      else
        (let st0 = st\<lparr> w_log := w_log st @ [''myfs_write: path, size, offset, n, stride_size, total_strides''] \<rparr>;
             st1 = fold (\<lambda>i s. send_path link path s i) [0..<n] st0;
             cst = fold (send_stride cs n link b) [0..<total_strides cs n (length b)] (0, st1);
             st2 = snd cst
         in \<lparr> w_ret = to_int32 (int (length b)),
              w_state = st2\<lparr> w_log := w_log st2 @ [''myfs_write: Successfully wrote bytes''] \<rparr>,
              w_local = fh \<rparr>))"

section \<open>Node server: the per-connection handler (client_handler)\<close>

text \<open>
  A \<open>std::fstream\<close> is modelled by the file it is associated with (\<open>None\<close> when
  it is not open) and its \<open>failbit\<close>.  The C++ library specifies:
  \<^item> \<open>open\<close> on a stream that is already open does not touch the file system,
    keeps the stream associated with its old file and sets \<open>failbit\<close>;
  \<^item> \<open>open\<close> on a closed stream associates it with the file and clears the
    error state when the file can be opened, and sets \<open>failbit\<close> otherwise;
  \<^item> \<open>seekp\<close> and \<open>write\<close> do nothing while \<open>failbit\<close> is set.
  Files are named by their full path (a byte string); \<open>resolve\<close> is \<open>p / buf\<close> under
  the root directory and \<open>creatable\<close> says which paths the file system lets the
  server open for writing.  Both are parameters.
\<close>

record fstream =
  f_path :: "byte list option"
  f_fail :: bool

record node =
  resolve :: "byte list \<Rightarrow> byte list"
  creatable :: "byte list \<Rightarrow> bool"

text \<open>
  The state of one connection: \<open>s_in\<close> is what the client still has to deliver on
  the socket (after which it closes), \<open>s_out\<close> what the server has sent back,
  \<open>s_hdr\<close> and \<open>s_buf\<close> the locals \<open>header\<close> and \<open>buf\<close>, \<open>s_file\<close> and \<open>s_off\<close>
  the entries of \<open>client_files\<close> and \<open>client_offsets\<close> for this descriptor
  (\<open>None\<close> when the map has no entry), and \<open>s_disk\<close> the files under the root.
\<close>

record srv =
  s_in :: "byte list"
  s_out :: "byte list"
  s_hdr :: MessageHeader
  s_buf :: "byte list"
  s_file :: "fstream option"
  s_off :: "int option"
  s_disk :: "byte list \<Rightarrow> byte list option"
  s_log :: "string list"

definition slog :: "string \<Rightarrow> srv \<Rightarrow> srv" where
  "slog m st = st\<lparr> s_log := s_log st @ [m] \<rparr>"

text \<open>\<open>recv(fd, buf, len, MSG_WAITALL)\<close>: the bytes received land at the front of \<open>buf\<close>.\<close>

definition recv_buf :: "nat \<Rightarrow> srv \<Rightarrow> nat \<times> srv" where
  "recv_buf len st =
     (let bs = take len (s_in st)
      in (length bs, st\<lparr> s_in := drop len (s_in st),
                        s_buf := bs @ drop (length bs) (s_buf st) \<rparr>))"

text \<open>The C string in \<open>buf\<close> after \<open>buf[len] = 0\<close>.\<close>

definition c_str :: "nat \<Rightarrow> byte list \<Rightarrow> byte list" where
  "c_str len b = takeWhile (\<lambda>x. x \<noteq> 0) (b[len := 0])"

text \<open>\<open>fstream::open(path, out | binary | trunc)\<close>.\<close>

definition fstream_open_trunc ::
  "node \<Rightarrow> byte list \<Rightarrow> fstream \<Rightarrow> (byte list \<Rightarrow> byte list option) \<Rightarrow> fstream \<times> (byte list \<Rightarrow> byte list option)" where
  "fstream_open_trunc nd p f disk =
     (if f_path f \<noteq> None then (f\<lparr> f_fail := True \<rparr>, disk)
      else if creatable nd p then (\<lparr> f_path = Some p, f_fail = False \<rparr>, disk(p \<mapsto> []))
      else (f\<lparr> f_fail := True \<rparr>, disk))"

text \<open>
  \<open>seekp(off); write(buf, len)\<close> on the file: the bytes replace what is stored at
  \<open>[off, off + len)\<close>, after zero-filling a gap behind the old end of the file.
  The model stores the bytes in the file at the \<open>write\<close>; the stream buffer of
  the library, which holds them back until it is flushed, is left out.
\<close>

definition pwrite_bytes :: "byte list \<Rightarrow> nat \<Rightarrow> byte list \<Rightarrow> byte list" where
  "pwrite_bytes old off bs =
     take off (old @ replicate (off - length old) 0) @ bs @ drop (off + length bs) old"

text \<open>
  The streaming loop of \<open>MSG_READ\<close>: the file is read into \<open>buf\<close> and sent in
  blocks of at most \<open>cs\<close> bytes until the end of the file.
\<close>

function blocks :: "nat \<Rightarrow> byte list \<Rightarrow> byte list list" where
  "blocks cs xs = (if cs = 0 \<or> xs = [] then [] else take cs xs # blocks cs (drop cs xs))"
  by pat_completeness auto
termination
  by (relation "measure (\<lambda>(cs, xs). length xs)") auto

declare blocks.simps [simp del]

definition do_read :: "nat \<Rightarrow> codec \<Rightarrow> node \<Rightarrow> srv \<Rightarrow> srv" where
  "do_read cs c nd st =
     (let len = unat (mlength (s_hdr st)) in
      if len \<ge> cs then slog ''Server: Path length too large'' st
      else
        (let st1 = snd (recv_buf len st);
             b = (s_buf st1)[len := 0];
             st2 = st1\<lparr> s_buf := b \<rparr>;
             p = resolve nd (c_str len (s_buf st1))
         in case s_disk st2 p of
              None \<Rightarrow>
                (let h = (s_hdr st2)\<lparr> mlength := 0 \<rparr>
                 in slog ''Server: Failed to open file''
                      (st2\<lparr> s_hdr := h, s_out := s_out st2 @ enc c h \<rparr>))
            | Some content \<Rightarrow>
                (let h = (s_hdr st2)\<lparr> mlength := of_nat (length content) \<rparr>
                 in slog ''Server: Sent bytes to client''
                      (st2\<lparr> s_hdr := h, s_out := s_out st2 @ enc c h @ concat (blocks cs content),
                            s_buf := fold (\<lambda>blk b. blk @ drop (length blk) b)
                                       (blocks cs content) (s_buf st2) \<rparr>))))"

definition do_write_path :: "nat \<Rightarrow> node \<Rightarrow> srv \<Rightarrow> srv" where
  "do_write_path cs nd st =
     (let len = unat (mlength (s_hdr st)) in
      if len \<ge> cs then slog ''Server: Path length too large'' st
      else
        (let r = recv_buf len st; st1 = snd r in
         if fst r \<noteq> len then slog ''Server: Failed to receive path data from client'' st1
         else
           (let st2 = st1\<lparr> s_buf := (s_buf st1)[len := 0] \<rparr>;
                full_path = resolve nd (c_str len (s_buf st1));
                f0 = (case s_file st2 of None \<Rightarrow> \<lparr> f_path = None, f_fail = False \<rparr> | Some f \<Rightarrow> f);
                fd = fstream_open_trunc nd full_path f0 (s_disk st2);
                st3 = st2\<lparr> s_file := Some (fst fd), s_disk := snd fd \<rparr>
            in if f_path (fst fd) = None
               then slog ''Server: Failed to open file for writing'' st3
               else slog ''Server: Client opened path for writing'' (st3\<lparr> s_off := Some 0 \<rparr>))))"

definition do_write :: "nat \<Rightarrow> srv \<Rightarrow> srv" where
  "do_write cs st =
     (let data_length = unat (mlength (s_hdr st)) in
      if data_length > cs then slog ''Server: Data length too large'' st
      else
        (let r = recv_buf data_length st; st1 = snd r in
         if fst r \<noteq> data_length then slog ''Server: Failed to receive data for MSG_WRITE'' st1
         else
           (case s_file st1 of
              None \<Rightarrow> slog ''Server: Received MSG_WRITE but file stream is not open'' st1
            | Some f \<Rightarrow>
               (case f_path f of
                  None \<Rightarrow> slog ''Server: Received MSG_WRITE but file stream is not open'' st1
                | Some p \<Rightarrow>
                   (let current_offset = (case s_off st1 of None \<Rightarrow> 0 | Some off \<Rightarrow> off);
                        st2 = st1\<lparr> s_off := Some current_offset \<rparr>
                    in if f_fail f then slog ''Server: Failed to write bytes to file'' st2
                       else slog ''Server: Wrote bytes to file''
                              (st2\<lparr> s_disk := (s_disk st2)(p \<mapsto>
                                       pwrite_bytes (case s_disk st2 p of None \<Rightarrow> [] | Some old \<Rightarrow> old)
                                         (nat current_offset) (take data_length (s_buf st2))),
                                     s_off := Some (current_offset + int data_length) \<rparr>))))))"

text \<open>One turn of the message loop, entered after a header has arrived.\<close>

definition dispatch :: "nat \<Rightarrow> codec \<Rightarrow> node \<Rightarrow> srv \<Rightarrow> srv" where
  "dispatch cs c nd st =
     (let t = mtype (s_hdr st) in
      if t = MSG_READ then do_read cs c nd st
      else if t = MSG_WRITE_PATH then do_write_path cs nd st
      else if t = MSG_WRITE then do_write cs st
      else if t = HEARTBEAT then
        slog ''Server: Received heartbeat message'' (st\<lparr> s_out := s_out st @ enc c (s_hdr st) \<rparr>)
      else slog ''Server: Unknown message type'' st)"

definition recv_header :: "codec \<Rightarrow> srv \<Rightarrow> srv" where
  "recv_header c st =
     st\<lparr> s_in := drop (hsz c) (s_in st),
         s_hdr := upd c (s_hdr st) (take (hsz c) (s_in st)) \<rparr>"

definition handler_step :: "nat \<Rightarrow> codec \<Rightarrow> node \<Rightarrow> srv \<Rightarrow> srv" where
  "handler_step cs c nd st = dispatch cs c nd (recv_header c st)"

text \<open>
  The loop (\<open>handler_loop\<close>): a header \<open>recv\<close> that returns nothing ends it.
  What remains (\<open>client_handler\<close>) is the cleanup: the file is closed and both
  map entries are erased.
\<close>

lemma s_in_slog [simp]: "s_in (slog m st) = s_in st"
  by (simp add: slog_def)

lemma s_in_recv_buf [simp]: "s_in (snd (recv_buf len st)) = drop len (s_in st)"
  by (simp add: recv_buf_def Let_def)

lemma s_in_do_read: "length (s_in (do_read cs c nd st)) \<le> length (s_in st)"
  unfolding do_read_def Let_def by (simp split: option.split)

lemma s_in_do_write_path: "length (s_in (do_write_path cs nd st)) \<le> length (s_in st)"
  unfolding do_write_path_def Let_def by simp

lemma s_in_do_write: "length (s_in (do_write cs st)) \<le> length (s_in st)"
  unfolding do_write_def Let_def by (simp split: option.split)

lemma s_in_dispatch_le: "length (s_in (dispatch cs c nd st)) \<le> length (s_in st)"
  unfolding dispatch_def Let_def
  by (simp add: s_in_do_read s_in_do_write_path s_in_do_write)

function handler_loop :: "nat \<Rightarrow> codec \<Rightarrow> node \<Rightarrow> srv \<Rightarrow> srv" where
  "handler_loop cs c nd st =
     (if take (hsz c) (s_in st) = [] then st
      else handler_loop cs c nd (handler_step cs c nd st))"
  by pat_completeness auto
termination
proof (relation "measure (\<lambda>(cs, c, nd, st). length (s_in st))")
  show "wf (measure (\<lambda>(cs, c, nd, st). length (s_in st)))" by simp
next
  fix cs :: nat and c :: codec and nd :: node and st :: srv
  assume a: "take (hsz c) (s_in st) \<noteq> []"
  have "length (s_in (handler_step cs c nd st)) \<le> length (s_in (recv_header c st))"
    unfolding handler_step_def by (rule s_in_dispatch_le)
  also have "\<dots> < length (s_in st)"
    using a by (cases "s_in st") (auto simp: recv_header_def)
  finally show "((cs, c, nd, handler_step cs c nd st), (cs, c, nd, st))
      \<in> measure (\<lambda>(cs, c, nd, st). length (s_in st))"
    by simp
qed

declare handler_loop.simps [simp del]

definition client_handler :: "nat \<Rightarrow> codec \<Rightarrow> node \<Rightarrow> srv \<Rightarrow> srv" where
  "client_handler cs c nd st =
     (let st1 = slog ''Server: Connection closed by client'' (handler_loop cs c nd st)
      in slog ''Server: Client disconnected'' (st1\<lparr> s_file := None, s_off := None \<rparr>))"

text \<open>
  The bytes of a list of frames on the wire: each frame is its header followed
  by its payload, as the client sends them.
\<close>

definition wire :: "codec \<Rightarrow> frame list \<Rightarrow> byte list" where
  "wire c fs = concat (map (\<lambda>f. enc c (fst f) @ snd f) fs)"

text \<open>
  A connection that stays open: the handler serves what has arrived and then
  waits in \<open>recv\<close> for the next header.  \<open>deliver\<close> is the state it waits in after
  the client has sent the frames \<open>fs\<close>.
\<close>

definition deliver :: "nat \<Rightarrow> codec \<Rightarrow> node \<Rightarrow> srv \<Rightarrow> frame list \<Rightarrow> srv" where
  "deliver cs c nd st fs = handler_loop cs c nd (st\<lparr> s_in := s_in st @ wire c fs \<rparr>)"

section \<open>Client: the read session (myfs_open, server_read_worker, myfs_read)\<close>

text \<open>
  The session state \<open>myfs_state\<close> with the fields the read path uses.  Offsets
  are \<open>off_t\<close> values (\<open>int\<close>), \<open>written\<close> are \<open>size_t\<close> counts, \<open>buf\<close> is the ring of
  \<open>cs * n\<close> bytes.  The field \<open>rx\<close> is not a field of the struct: it is the
  environment, for each lane the bytes that the node streams on the socket after
  its response header and that the client has not received yet.
\<close>

record myfs_state =
  servers :: "int list"
  headers :: "MessageHeader list"
  offsets :: "int list"
  written :: "nat list"
  active :: "bool list"
  buf :: "byte list"
  rx :: "byte list list"

datatype errno = EIO | EACCES

datatype accmode = O_RDONLY | O_WRONLY | O_RDWR | O_ACCMODE_other

text \<open>
  \<open>send_headers\<close> on lane \<open>i\<close>: nothing happens on a dead lane; otherwise the
  request goes out and the response header comes back, or the lane is marked dead.
  The node's answer is a parameter \<open>reply\<close>: \<open>reply i\<close> is \<open>None\<close> when a send or
  the receive on lane \<open>i\<close> fails, and otherwise the response header together with
  the bytes the node streams after it.
\<close>

definition send_headers ::
  "(nat \<Rightarrow> (MessageHeader \<times> byte list) option) \<Rightarrow> nat \<Rightarrow> myfs_state \<Rightarrow> myfs_state" where
  "send_headers reply i st =
     (if servers st ! i = -1 then st
      else case reply i of
             None \<Rightarrow> st\<lparr> servers := (servers st)[i := -1] \<rparr>
           | Some r \<Rightarrow> st\<lparr> headers := (headers st)[i := fst r], rx := (rx st)[i := snd r] \<rparr>)"

definition read_request :: "nat \<Rightarrow> MessageHeader" where
  "read_request len = \<lparr> mtype = MSG_READ, mlength = of_nat len \<rparr>"

text \<open>The first loop of \<open>O_RDONLY\<close>: one \<open>send_headers\<close> thread per live data lane.\<close>

definition open_request :: "(nat \<Rightarrow> (MessageHeader \<times> byte list) option) \<Rightarrow> nat \<Rightarrow> nat \<Rightarrow> myfs_state \<Rightarrow> myfs_state" where
  "open_request reply len i st =
     (if servers st ! i = -1 then st
      else send_headers reply i (st\<lparr> headers := (headers st)[i := read_request len] \<rparr>))"

text \<open>
  The second loop: lane \<open>i\<close> is examined; the first dead lane found (or \<open>n = 1\<close>)
  makes the client send the request to the last lane.  The loop state is
  \<open>fail_count\<close> and the session.
\<close>

definition open_examine ::
  "nat \<Rightarrow> (nat \<Rightarrow> (MessageHeader \<times> byte list) option) \<Rightarrow> nat \<Rightarrow> nat \<Rightarrow> nat \<times> myfs_state \<Rightarrow> nat \<times> myfs_state" where
  "open_examine cs reply len i fst_st =
     (let fail_count = fst fst_st; st = snd fst_st; n = length (servers st);
          st1 = (if (servers st ! i = -1 \<and> fail_count = 0) \<or> n = 1
                 then send_headers reply (n - 1)
                        (st\<lparr> headers := (headers st)[n - 1 := read_request len] \<rparr>)
                 else st)
      in if servers st1 ! i = -1
         then (fail_count + 1,
               st1\<lparr> headers := (headers st1)[i := (headers st1 ! i)\<lparr> mlength := 0 \<rparr>],
                    offsets := (offsets st1)[i := 0] \<rparr>)
         else (fail_count, st1\<lparr> offsets := (offsets st1)[i := - int (stride_size cs n)] \<rparr>))"

record open_result =
  o_ret :: int
  o_errno :: "errno option"
  o_state :: myfs_state

definition myfs_open ::
  "nat \<Rightarrow> (nat \<Rightarrow> (MessageHeader \<times> byte list) option) \<Rightarrow> int \<Rightarrow> byte list \<Rightarrow> accmode \<Rightarrow> myfs_state \<Rightarrow> open_result" where
  "myfs_open cs reply local_open path flags st =
     (case flags of
        O_RDONLY \<Rightarrow>
          (let n = length (servers st); len = length path;
               st1 = fold (open_request reply len) [0..<n - 1] st;
               r = fold (open_examine cs reply len) [0..<n] (0, st1);
               fail_count = fst r; st2 = snd r
           in if fail_count > 1 \<or> fail_count = n
              then \<lparr> o_ret = -1, o_errno = Some EIO, o_state = st2 \<rparr>
              else \<lparr> o_ret = 0, o_errno = None,
                     o_state = (if fail_count = 0 \<and> n > 1
                                then st2\<lparr> headers := (headers st2)[n - 1 :=
                                         (headers st2 ! (n - 1))\<lparr> mlength := 0 \<rparr>] \<rparr>
                                else st2) \<rparr>)
      | O_WRONLY \<Rightarrow> \<lparr> o_ret = local_open, o_errno = None, o_state = st \<rparr>
      | O_RDWR \<Rightarrow> \<lparr> o_ret = -1, o_errno = Some EACCES, o_state = st \<rparr>
      | O_ACCMODE_other \<Rightarrow> \<lparr> o_ret = -1, o_errno = Some EACCES, o_state = st \<rparr>)"

text \<open>The number of dead lanes of a session.\<close>

definition dead_lanes :: "myfs_state \<Rightarrow> nat" where
  "dead_lanes st = length (filter (\<lambda>s. s = -1) (servers st))"

text \<open>
  A call that does not return: it waits forever on a condition variable
  (\<open>Hang\<close>), or the process is stopped by a failed \<open>assert\<close> or a division by
  zero (\<open>Abort\<close>).
\<close>

datatype failure = Hang | Abort

text \<open>C integer division truncates towards zero.\<close>

definition tdiv :: "int \<Rightarrow> int \<Rightarrow> int" where
  "tdiv a b = sgn a * sgn b * (\<bar>a\<bar> div \<bar>b\<bar>)"

text \<open>A loop body that may fail to return, run over a list of indices.\<close>

fun fold_r :: "('a \<Rightarrow> 's \<Rightarrow> failure + 's) \<Rightarrow> 'a list \<Rightarrow> 's \<Rightarrow> failure + 's" where
  "fold_r f [] s = Inr s"
| "fold_r f (x # xs) s = (case f x s of Inl e \<Rightarrow> Inl e | Inr s' \<Rightarrow> fold_r f xs s')"

text \<open>
  \<open>server_read_worker\<close>.  The predicate of its wait on the parity lane's
  condition variable is \<open>parity_leads\<close>; its parameters \<open>stride\<close> and \<open>offset\<close> are
  \<open>int\<close>s, \<open>parity_offset\<close> is the \<open>off_t\<close> of the last lane.

  The worker is run to the point where it cannot go on: when the wait does not
  pass it receives nothing (the caller, the only thread that could move the
  parity lane's offset, waits for this worker next); otherwise it receives into
  the ring at \<open>pos\<close> the bytes that arrive on the lane, up to \<open>cs\<close>, and
  \<open>written\<close> ends as their number.  \<open>recv\<close> on a dead lane (descriptor \<open>-1\<close>)
  fails the \<open>assert\<close>.
\<close>

definition parity_leads :: "int \<Rightarrow> int \<Rightarrow> int \<Rightarrow> bool" where
  "parity_leads stride offset parity_offset \<longleftrightarrow>
     tdiv parity_offset stride \<ge> tdiv offset stride"

definition ring_write :: "byte list \<Rightarrow> nat \<Rightarrow> byte list \<Rightarrow> byte list" where
  "ring_write b pos bs = take pos b @ bs @ drop (pos + length bs) b"

definition server_read_worker ::
  "nat \<Rightarrow> nat \<Rightarrow> nat \<Rightarrow> bool \<Rightarrow> int \<Rightarrow> int \<Rightarrow> myfs_state \<Rightarrow> failure + myfs_state" where
  "server_read_worker cs idx pos is_parity stride offset st =
     (let n = length (servers st) in
      if \<not> is_parity \<and> stride = 0 then Inl Abort
      else if \<not> is_parity \<and> \<not> parity_leads stride offset (offsets st ! (n - 1)) then Inr st
      else if cs = 0 then Inr st
      else if servers st ! idx = -1 then Inl Abort
      else
        (let m = min cs (length (rx st ! idx))
         in Inr (st\<lparr> buf := ring_write (buf st) pos (take m (rx st ! idx)),
                     written := (written st)[idx := m],
                     rx := (rx st)[idx := drop m (rx st ! idx)] \<rparr>)))"

text \<open>\<open>n_data\<close> and the stride of \<open>myfs_read\<close>.\<close>

definition n_data :: "nat \<Rightarrow> nat" where
  "n_data n = (if n > 1 then n - 1 else 1)"

text \<open>
  The body of the inner loop of the first phase: data lane \<open>i\<close> of stride
  \<open>stride_idx\<close>, for the window \<open>[start_byte, end_byte)\<close>.

  No statement of the program stores \<open>false\<close> into \<open>active\<close>, so the wait for
  \<open>!active[idx]\<close> passes when the flag is false on entry and never otherwise.
  The worker has gone as far as it can when the caller waits for \<open>written[idx]\<close>,
  so that wait passes when the count is large enough then and never otherwise.
\<close>

definition fetch_chunk :: "nat \<Rightarrow> nat \<Rightarrow> nat \<Rightarrow> nat \<Rightarrow> nat \<Rightarrow> myfs_state \<Rightarrow> failure + myfs_state" where
  "fetch_chunk cs start_byte end_byte stride_idx i st =
     (let n = length (servers st);
          stride = cs * n_data n;
          idx = (if servers st ! i = -1 then n - 1 else i);
          chunk_start_in_file = stride_idx * stride + i * cs;
          chunk_end_in_file = chunk_start_in_file + cs;
          required_bytes = (if chunk_start_in_file < start_byte
                            then cs - (start_byte - chunk_start_in_file) else cs);
          wait_data = (\<lambda>s. if written s ! idx \<ge> required_bytes then Inr s else Inl Hang)
      in if chunk_end_in_file \<le> start_byte \<or> chunk_start_in_file \<ge> end_byte then Inr st
         else if offsets st ! idx < int chunk_end_in_file then
           (if active st ! idx then Inl Hang
            else if offsets st ! idx \<ge> int chunk_end_in_file then Inr st
            else
              (let st1 = st\<lparr> offsets := (offsets st)[idx := int chunk_start_in_file],
                             written := (written st)[idx := 0] \<rparr>
               in case server_read_worker cs idx (chunk_start_in_file mod (cs * n))
                         (n - 1 = idx \<or> mlength (headers st1 ! (n - 1)) = 0)
                         (to_int32 (int stride)) (to_int32 (int chunk_start_in_file)) st1 of
                    Inl e \<Rightarrow> Inl e
                  | Inr st2 \<Rightarrow> wait_data (st2\<lparr> active := (active st2)[idx := True] \<rparr>)))
         else wait_data st)"

text \<open>
  The reconstruction of dead data lane \<open>i\<close>: \<open>memcpy\<close> of the block at
  \<open>parity_offset\<close> to the block at \<open>data_offset\<close>, then for every other live data
  lane \<open>j\<close> and every byte \<open>k\<close>, \<open>buf[data_offset + k] ^= buf[other_offset + k]\<close>.
\<close>

definition xor_into :: "nat \<Rightarrow> nat \<Rightarrow> nat \<Rightarrow> byte list \<Rightarrow> byte list" where
  "xor_into cs data_offset other_offset b =
     fold (\<lambda>k b'. b'[data_offset + k := b' ! (data_offset + k) XOR b' ! (other_offset + k)]) [0..<cs] b"

definition reconstruct :: "nat \<Rightarrow> nat \<Rightarrow> nat \<Rightarrow> myfs_state \<Rightarrow> myfs_state" where
  "reconstruct cs stride_idx i st =
     (let n = length (servers st);
          stride = cs * n_data n;
          data_offset = (stride_idx * stride + i * cs) mod (cs * n);
          parity_offset = (stride_idx * stride + n_data n * cs) mod (cs * n);
          b0 = ring_write (buf st) data_offset (take cs (drop parity_offset (buf st)));
          b1 = fold (\<lambda>j b. if j \<noteq> i \<and> servers st ! j \<noteq> -1
                              then xor_into cs data_offset
                                     ((stride_idx * stride + j * cs) mod (cs * n)) b
                              else b) [0..<n_data n] b0
      in st\<lparr> buf := b1 \<rparr>)"

text \<open>One turn of the outer loop of the first phase.\<close>

definition fill_stride :: "nat \<Rightarrow> nat \<Rightarrow> nat \<Rightarrow> nat \<Rightarrow> myfs_state \<Rightarrow> failure + myfs_state" where
  "fill_stride cs start_byte end_byte stride_idx st =
     (let n = length (servers st) in
      case fold_r (fetch_chunk cs start_byte end_byte stride_idx) [0..<n_data n] st of
        Inl e \<Rightarrow> Inl e
      | Inr st1 \<Rightarrow>
          if n > 1 \<and> (\<exists>i \<in> set [0..<n_data n]. servers st1 ! i = -1) then
            (if written st1 ! (n - 1) \<ge> cs
             then Inr (fold (\<lambda>i s. if servers s ! i = -1 then reconstruct cs stride_idx i s else s)
                         [0..<n_data n] st1)
             else Inl Hang)
          else Inr st1)"

text \<open>
  One turn of the copy-out loop; the loop state is the bytes copied to the
  caller's buffer so far.  The loop runs while \<open>remaining > 0\<close>, and \<open>remaining\<close>
  is the size of the window less the number of bytes copied.
\<close>

definition copy_stride :: "nat \<Rightarrow> nat \<Rightarrow> nat \<Rightarrow> myfs_state \<Rightarrow> nat \<Rightarrow> byte list \<Rightarrow> failure + byte list" where
  "copy_stride cs start_byte end_byte st stride_idx out =
     (let n = length (servers st);
          stride = cs * n_data n;
          stride_start = stride_idx * stride;
          stride_end = stride_start + stride;
          copy_start = max start_byte stride_start;
          copy_end = min end_byte stride_end;
          copy_size = copy_end - copy_start
      in if \<not> (end_byte - start_byte - length out > 0) then Inr out
         else if copy_size > 0 then
           (let buffer_pos = copy_start mod stride;
                server_idx = (if servers st ! (buffer_pos div cs) = -1 then n - 1
                              else buffer_pos div cs);
                offset_in_chunk = buffer_pos mod cs;
                buffer_offset = server_idx * cs + offset_in_chunk;
                required = offset_in_chunk + copy_size
            in if written st ! server_idx \<ge> required
               then Inr (out @ take copy_size (drop buffer_offset (buf st)))
               else Inl Hang)
         else Inr out)"

record read_result =
  r_ret :: int
  r_out :: "byte list"
  r_state :: myfs_state

text \<open>
  The first phase alone, and \<open>myfs_read\<close>: the bytes it copies to the caller's
  buffer, its return value and the session afterwards.

  The last stride index is \<open>(end_byte - 1) / stride\<close> stored in a \<open>size_t\<close>.  For
  \<open>end_byte = 0\<close> the quotient of \<open>-1\<close> is \<open>0\<close>, except for a stride of one byte
  where it is \<open>-1\<close>, that is \<open>SIZE_MAX\<close>, and the loop \<open>stride_idx <= SIZE_MAX\<close>
  has no end (\<open>None\<close>).
\<close>

definition end_stride_idx :: "nat \<Rightarrow> nat \<Rightarrow> nat \<Rightarrow> nat option" where
  "end_stride_idx cs n end_byte =
     (if end_byte = 0 then (if cs * n_data n = 1 then None else Some 0)
      else Some ((end_byte - 1) div (cs * n_data n)))"

definition fill_strides :: "nat \<Rightarrow> nat \<Rightarrow> nat \<Rightarrow> myfs_state \<Rightarrow> failure + myfs_state" where
  "fill_strides cs sz offset st =
     (let n = length (servers st);
          start_stride_idx = offset div (cs * n_data n)
      in case end_stride_idx cs n (offset + sz) of
           None \<Rightarrow> Inl Hang
         | Some e \<Rightarrow>
             fold_r (fill_stride cs offset (offset + sz)) [start_stride_idx..<e + 1] st)"

definition myfs_read :: "nat \<Rightarrow> nat \<Rightarrow> nat \<Rightarrow> myfs_state \<Rightarrow> failure + read_result" where
  "myfs_read cs sz offset st =
     (let n = length (servers st);
          start_stride_idx = offset div (cs * n_data n)
      in case fill_strides cs sz offset st of
           Inl e \<Rightarrow> Inl e
         | Inr st1 \<Rightarrow>
            (case fold_r (copy_stride cs offset (offset + sz) st1)
                    [start_stride_idx..<the (end_stride_idx cs n (offset + sz)) + 1] [] of
               Inl e \<Rightarrow> Inl e
             | Inr out \<Rightarrow> Inr \<lparr> r_ret = to_int32 (int (length out)), r_out = out, r_state = st1 \<rparr>))"

text \<open>
  The same worker as a thread that is scheduled step by step, for the order of
  its actions in time.  An event is either a store to the parity lane's offset by
  another thread (\<open>Store\<close>), or one step of the worker (\<open>Run k\<close>): the wait's
  predicate is evaluated, or \<open>recv\<close> returns \<open>k\<close> bytes (at most what was asked
  for; \<open>0\<close> for \<open>EAGAIN\<close>), or the loop ends.  \<open>worker_trace\<close> lists the states
  the worker goes through under a schedule.
\<close>

datatype wpc = Waiting | Receiving | Returned

record worker =
  t_pc :: wpc
  t_written :: nat
  t_parity_offset :: int

datatype event = Store int | Run nat

definition worker_step :: "bool \<Rightarrow> int \<Rightarrow> int \<Rightarrow> nat \<Rightarrow> worker \<Rightarrow> event \<Rightarrow> worker" where
  "worker_step is_parity stride offset buf_size w ev =
     (case ev of
        Store po \<Rightarrow> w\<lparr> t_parity_offset := po \<rparr>
      | Run k \<Rightarrow>
         (case t_pc w of
            Waiting \<Rightarrow>
              if is_parity \<or> parity_leads stride offset (t_parity_offset w)
              then w\<lparr> t_pc := Receiving \<rparr> else w
          | Receiving \<Rightarrow>
              if t_written w < buf_size
              then w\<lparr> t_written := t_written w + min k (buf_size - t_written w) \<rparr>
              else w\<lparr> t_pc := Returned \<rparr>
          | Returned \<Rightarrow> w))"

fun worker_trace :: "bool \<Rightarrow> int \<Rightarrow> int \<Rightarrow> nat \<Rightarrow> worker \<Rightarrow> event list \<Rightarrow> worker list" where
  "worker_trace is_parity stride offset buf_size w [] = [w]"
| "worker_trace is_parity stride offset buf_size w (ev # evs) =
     w # worker_trace is_parity stride offset buf_size (worker_step is_parity stride offset buf_size w ev) evs"

definition worker_start :: "int \<Rightarrow> worker" where
  "worker_start po = \<lparr> t_pc = Waiting, t_written = 0, t_parity_offset = po \<rparr>"

text \<open>
  A session in which every lane is live, as \<open>myfs_open\<close> leaves it when no lane
  has failed: the vectors have one entry per lane, no \<open>written\<close> counter exceeds
  the chunk size, and parity has not been requested (the last header's length
  is 0) unless there is a single lane.
\<close>

definition live_inv :: "nat \<Rightarrow> nat \<Rightarrow> myfs_state \<Rightarrow> bool" where
  "live_inv cs n st \<longleftrightarrow>
     length (servers st) = n \<and> length (offsets st) = n \<and> length (written st) = n \<and>
     length (active st) = n \<and> (\<forall>i<n. servers st ! i \<noteq> -1) \<and> (\<forall>i<n. written st ! i \<le> cs) \<and>
     (n = 1 \<or> mlength (headers st ! (n - 1)) = 0)"

text \<open>Concrete objects for running the handler: a node whose file names are the
  received paths, and a connection that has just been accepted.\<close>

definition plain_node :: node where
  "plain_node = \<lparr> resolve = (\<lambda>p. p), creatable = (\<lambda>p. True) \<rparr>"

definition fresh_conn :: "nat \<Rightarrow> srv" where
  "fresh_conn cs = \<lparr> s_in = [], s_out = [], s_hdr = \<lparr> mtype = 0, mlength = 0 \<rparr>,
     s_buf = replicate cs 0, s_file = None, s_off = None, s_disk = Map.empty, s_log = [] \<rparr>"

text \<open>Concrete objects for running the client: three live lanes on which nothing
  has been sent, a network that delivers everything, and a \<open>pwrite\<close> that writes
  all of its buffer.\<close>

definition three_lanes :: wstate where
  "three_lanes = \<lparr> w_servers = [3, 4, 5], w_sent = [[], [], []], w_log = [] \<rparr>"

definition link_up :: "nat \<Rightarrow> nat \<Rightarrow> send_result" where
  "link_up i m = SendOK"

definition pwrite_all :: "unit \<Rightarrow> byte list \<Rightarrow> int \<Rightarrow> int \<times> unit" where
  "pwrite_all f b off = (int (length b), f)"

text \<open>The connection of \<open>fresh_conn\<close> after one complete write of the two
  bytes \<open>[1, 2]\<close> to the path \<open>a\<close>, at chunk size 2.\<close>

definition conn_after_write :: srv where
  "conn_after_write = deliver 2 lp64_codec plain_node (fresh_conn 2)
     [(path_header [97], [97]), (data_header 2, [1, 2])]"

text \<open>A session of \<open>n\<close> lanes at mount time (\<open>myfs_main\<close>), with sockets
  \<open>3, 4, \<dots>\<close> and a ring of zero bytes, and nodes that answer every \<open>READ\<close> with
  the length and the bytes of a two-byte file.\<close>

definition mounted :: "nat \<Rightarrow> nat \<Rightarrow> myfs_state" where
  "mounted cs n = \<lparr> servers = map (\<lambda>i. 3 + int i) [0..<n],
     headers = replicate n \<lparr> mtype = 0, mlength = 0 \<rparr>,
     offsets = replicate n 0, written = replicate n 0, active = replicate n False,
     buf = replicate (cs * n) 0, rx = replicate n [] \<rparr>"

definition reply_two :: "nat \<Rightarrow> (MessageHeader \<times> byte list) option" where
  "reply_two i = Some (\<lparr> mtype = MSG_READ, mlength = 2 \<rparr>, [1, 2])"

text \<open>A session opened on nodes that hold the files \<open>files\<close> (one per lane), and
  the node files of a write of the bytes \<open>1, \<dots>, 8\<close> to three lanes at chunk size 2.\<close>

definition reply_files :: "byte list list \<Rightarrow> nat \<Rightarrow> (MessageHeader \<times> byte list) option" where
  "reply_files files i =
     Some (\<lparr> mtype = MSG_READ, mlength = of_nat (length (files ! i)) \<rparr>, files ! i)"

definition opened :: "nat \<Rightarrow> int list \<Rightarrow> byte list list \<Rightarrow> myfs_state" where
  "opened cs srv files =
     o_state (myfs_open cs (reply_files files) 0 [47, 97] O_RDONLY
       ((mounted cs (length srv))\<lparr> servers := srv \<rparr>))"

definition stored3 :: "byte list list" where
  "stored3 = [[1, 2, 5, 6], [3, 4, 7, 8], [2, 6, 2, 14]]"


text \<open>
  The whole round trip on a fresh mount of \<open>n\<close> lanes, each lane with a node of
  its own that has just accepted the connection: the client writes \<open>b\<close> at offset
  0, every node serves the frames of its lane, the client opens the path for
  reading (a node's reply to \<open>READ\<close> is what its handler sends back: the response
  header, then the file), and reads the window \<open>[0, length b)\<close>.
\<close>

definition node_after_write :: "nat \<Rightarrow> codec \<Rightarrow> node \<Rightarrow> nat \<Rightarrow> byte list \<Rightarrow> byte list \<Rightarrow> nat \<Rightarrow> srv" where
  "node_after_write cs c nd n path b i =
     deliver cs c nd (fresh_conn cs)
       (w_sent (w_state (myfs_write cs link_up pwrite_all path b 0 ()
          \<lparr> w_servers = servers (mounted cs n), w_sent = replicate n [], w_log = [] \<rparr>)) ! i)"

definition node_reply :: "nat \<Rightarrow> codec \<Rightarrow> node \<Rightarrow> byte list \<Rightarrow> srv \<Rightarrow> (MessageHeader \<times> byte list) option" where
  "node_reply cs c nd path st =
     (let out = s_out (deliver cs c nd (st\<lparr> s_out := [] \<rparr>) [(read_request (length path), path)])
      in Some (upd c (read_request (length path)) (take (hsz c) out), drop (hsz c) out))"

definition round_trip :: "nat \<Rightarrow> codec \<Rightarrow> node \<Rightarrow> nat \<Rightarrow> byte list \<Rightarrow> byte list \<Rightarrow> failure + read_result" where
  "round_trip cs c nd n path b =
     myfs_read cs (length b) 0
       (o_state (myfs_open cs (\<lambda>i. node_reply cs c nd path (node_after_write cs c nd n path b i))
          0 path O_RDONLY (mounted cs n)))"

section \<open>Facts about the codec and the handler\<close>

lemma bit_horner_bytes:
  "bit (horner_sum uint 256 (bs :: byte list)) n \<longleftrightarrow>
     n div 8 < length bs \<and> bit (bs ! (n div 8)) (n mod 8)"
  using bit_horner_sum_uint_exp_iff [where 'a = 8, of bs n] by simp

lemma dec_enc_word:
  "LENGTH('a::len) \<le> 8 * k \<Longrightarrow> dec_word (enc_word k (w::'a word)) = w"
  apply (rule bit_word_eqI)
  apply (simp add: dec_word_def enc_word_def bit_word_of_int_iff bit_horner_bytes)
  apply (auto simp: bit_simps)
  done

lemma length_enc_word: "length (enc_word k w) = k"
  by (simp add: enc_word_def)

lemma wire_ok_lp64: "wire_ok lp64_codec"
  by (simp add: wire_ok_def lp64_codec_def lp64_enc_def length_enc_word dec_enc_word)

lemma enc_lp64: "enc lp64_codec = lp64_enc"
  by (simp add: lp64_codec_def)

lemma msg_distinct [simp]:
  "MSG_WRITE \<noteq> MSG_READ" "MSG_WRITE \<noteq> MSG_WRITE_PATH" "MSG_WRITE_PATH \<noteq> MSG_READ"
  "HEARTBEAT \<noteq> MSG_READ" "HEARTBEAT \<noteq> MSG_WRITE_PATH" "HEARTBEAT \<noteq> MSG_WRITE"
  by (simp_all add: MSG_READ_def MSG_WRITE_def MSG_WRITE_PATH_def HEARTBEAT_def)

lemma recv_header_frame:
  assumes "wire_ok c" "s_in st = enc c h @ rest"
  shows "recv_header c st = st\<lparr> s_in := rest, s_hdr := h \<rparr>"
  using assms by (simp add: recv_header_def wire_ok_def)

lemma unat_len64: "n < 2 ^ 64 \<Longrightarrow> unat (of_nat n :: 64 word) = n"
  by (simp add: unat_of_nat)

lemma step_write_path:
  assumes c: "wire_ok c"
    and i: "s_in st = enc c (path_header name) @ name @ rest"
    and n: "length name < cs" "cs < 2 ^ 64"
  shows "handler_step cs c nd st =
     (let b = name @ drop (length name) (s_buf st);
          p = resolve nd (c_str (length name) b);
          f0 = (case s_file st of None \<Rightarrow> \<lparr> f_path = None, f_fail = False \<rparr> | Some f \<Rightarrow> f);
          fd = fstream_open_trunc nd p f0 (s_disk st);
          st3 = st\<lparr> s_in := rest, s_hdr := path_header name, s_buf := b[length name := 0],
                    s_file := Some (fst fd), s_disk := snd fd \<rparr>
      in if f_path (fst fd) = None
         then slog ''Server: Failed to open file for writing'' st3
         else slog ''Server: Client opened path for writing'' (st3\<lparr> s_off := Some 0 \<rparr>))"
proof -
  have r: "recv_header c st = st\<lparr> s_in := name @ rest, s_hdr := path_header name \<rparr>"
    using recv_header_frame [OF c i] .
  have u: "unat (mlength (path_header name)) = length name"
    using n by (simp add: path_header_def unat_len64)
  have t: "mtype (path_header name) = MSG_WRITE_PATH"
    by (simp add: path_header_def)
  show ?thesis
    unfolding handler_step_def r dispatch_def
    using n by (simp add: Let_def do_write_path_def u t recv_buf_def slog_def)
qed

lemma step_write:
  assumes c: "wire_ok c"
    and i: "s_in st = enc c (data_header len) @ dat @ rest"
    and n: "length dat = len" "len \<le> cs" "cs < 2 ^ 64"
  shows "handler_step cs c nd st =
     (let st1 = st\<lparr> s_in := rest, s_hdr := data_header len, s_buf := dat @ drop len (s_buf st) \<rparr>
      in case s_file st of
           None \<Rightarrow> slog ''Server: Received MSG_WRITE but file stream is not open'' st1
         | Some f \<Rightarrow>
            (case f_path f of
               None \<Rightarrow> slog ''Server: Received MSG_WRITE but file stream is not open'' st1
             | Some p \<Rightarrow>
                (let current_offset = (case s_off st of None \<Rightarrow> 0 | Some off \<Rightarrow> off);
                     st2 = st1\<lparr> s_off := Some current_offset \<rparr>
                 in if f_fail f then slog ''Server: Failed to write bytes to file'' st2
                    else slog ''Server: Wrote bytes to file''
                           (st2\<lparr> s_disk := (s_disk st)(p \<mapsto>
                                    pwrite_bytes (case s_disk st p of None \<Rightarrow> [] | Some old \<Rightarrow> old)
                                      (nat current_offset) dat),
                                  s_off := Some (current_offset + int len) \<rparr>))))"
proof -
  have r: "recv_header c st = st\<lparr> s_in := dat @ rest, s_hdr := data_header len \<rparr>"
    using recv_header_frame [OF c i] .
  have u: "unat (mlength (data_header len)) = len"
    using n by (simp add: data_header_def unat_len64)
  have t: "mtype (data_header len) = MSG_WRITE"
    by (simp add: data_header_def)
  show ?thesis
    unfolding handler_step_def r dispatch_def
    using n by (simp add: Let_def do_write_def u t recv_buf_def slog_def split: option.split)
qed


lemma handler_loop_step:
  "take (hsz c) (s_in st) \<noteq> [] \<Longrightarrow>
     handler_loop cs c nd st = handler_loop cs c nd (handler_step cs c nd st)"
  by (subst handler_loop.simps) simp

lemma handler_loop_done: "s_in st = [] \<Longrightarrow> handler_loop cs c nd st = st"
  by (subst handler_loop.simps) simp

lemma header_arrived:
  assumes "wire_ok c" "s_in st = enc c h @ rest"
  shows "take (hsz c) (s_in st) \<noteq> []"
proof -
  have "length (enc c h) = hsz c" and "0 < hsz c"
    using assms(1) by (simp_all add: wire_ok_def)
  then show ?thesis using assms(2) by auto
qed

lemma pwrite_bytes_append [simp]: "pwrite_bytes old (length old) bs = old @ bs"
  by (simp add: pwrite_bytes_def)

lemma wire_Cons: "wire c ((h, p) # fs) = enc c h @ p @ wire c fs"
  by (simp add: wire_def)

lemma wire_Nil [simp]: "wire c [] = []"
  by (simp add: wire_def)

lemma loop_writes:
  assumes c: "wire_ok c" and cs: "cs < 2 ^ 64"
  shows "\<forall>ch \<in> set chunks. length ch = cs \<Longrightarrow>
     s_in st = wire c (map (Pair (data_header cs)) chunks) \<Longrightarrow>
     s_file st = Some \<lparr> f_path = Some p, f_fail = False \<rparr> \<Longrightarrow>
     s_off st = Some (int (length old)) \<Longrightarrow> s_disk st p = Some old \<Longrightarrow>
     s_disk (handler_loop cs c nd st) = (s_disk st)(p \<mapsto> old @ concat chunks)
     \<and> s_off (handler_loop cs c nd st) = Some (int (length old + length (concat chunks)))
     \<and> s_file (handler_loop cs c nd st) = s_file st
     \<and> s_in (handler_loop cs c nd st) = []
     \<and> s_out (handler_loop cs c nd st) = s_out st"
proof (induction chunks arbitrary: st old)
  case Nil
  then show ?case by (auto simp: handler_loop_done)
next
  case (Cons ch chunks)
  let ?st' = "handler_step cs c nd st"
  have i: "s_in st = enc c (data_header cs) @ ch @ wire c (map (Pair (data_header cs)) chunks)"
    using Cons.prems(2) by (simp add: wire_Cons)
  have len: "length ch = cs" using Cons.prems(1) by simp
  have st': "?st' = slog ''Server: Wrote bytes to file''
      (st\<lparr> s_in := wire c (map (Pair (data_header cs)) chunks), s_hdr := data_header cs,
           s_buf := ch @ drop cs (s_buf st),
           s_off := Some (int (length old) + int cs),
           s_disk := (s_disk st)(p \<mapsto> old @ ch) \<rparr>)"
    using step_write [OF c i len _ cs, of nd] Cons.prems(3,4,5)
    by (simp add: slog_def)
  have 1: "s_in ?st' = wire c (map (Pair (data_header cs)) chunks)"
    and 2: "s_file ?st' = Some \<lparr> f_path = Some p, f_fail = False \<rparr>"
    and 3: "s_off ?st' = Some (int (length (old @ ch)))"
    and 4: "s_disk ?st' p = Some (old @ ch)"
    and 5: "s_disk ?st' = (s_disk st)(p \<mapsto> old @ ch)"
    and 6: "s_out ?st' = s_out st"
    using Cons.prems(3) len by (simp_all add: st' slog_def)
  have "\<forall>ch \<in> set chunks. length ch = cs" using Cons.prems(1) by simp
  from Cons.IH [OF this 1 2 3 4]
  show ?case
    using handler_loop_step [OF header_arrived [OF c i], of cs nd] 2 5 6 Cons.prems(3) len
    by (auto simp: fun_eq_iff)
qed

lemma loop_writes_failed:
  assumes c: "wire_ok c" and cs: "cs < 2 ^ 64"
  shows "\<forall>ch \<in> set chunks. length ch = cs \<Longrightarrow>
     s_in st = wire c (map (Pair (data_header cs)) chunks) \<Longrightarrow>
     s_file st = Some f \<Longrightarrow> f_path f = Some p \<Longrightarrow> f_fail f \<Longrightarrow> s_off st = Some off \<Longrightarrow>
     s_disk (handler_loop cs c nd st) = s_disk st
     \<and> s_off (handler_loop cs c nd st) = Some off
     \<and> s_file (handler_loop cs c nd st) = s_file st
     \<and> s_in (handler_loop cs c nd st) = []"
proof (induction chunks arbitrary: st)
  case Nil
  then show ?case by (auto simp: handler_loop_done)
next
  case (Cons ch chunks)
  let ?st' = "handler_step cs c nd st"
  have i: "s_in st = enc c (data_header cs) @ ch @ wire c (map (Pair (data_header cs)) chunks)"
    using Cons.prems(2) by (simp add: wire_Cons)
  have len: "length ch = cs" using Cons.prems(1) by simp
  have st': "?st' = slog ''Server: Failed to write bytes to file''
      (st\<lparr> s_in := wire c (map (Pair (data_header cs)) chunks), s_hdr := data_header cs,
           s_buf := ch @ drop cs (s_buf st), s_off := Some off \<rparr>)"
    using step_write [OF c i len _ cs, of nd] Cons.prems(3,4,5,6)
    by (simp add: slog_def)
  have 1: "s_in ?st' = wire c (map (Pair (data_header cs)) chunks)"
    and 2: "s_file ?st' = Some f"
    and 3: "s_off ?st' = Some off"
    and 5: "s_disk ?st' = s_disk st"
    using Cons.prems(3) by (simp_all add: st' slog_def)
  have "\<forall>ch \<in> set chunks. length ch = cs" using Cons.prems(1) by simp
  from Cons.IH [OF this 1 2 Cons.prems(4,5) 3]
  show ?case
    using handler_loop_step [OF header_arrived [OF c i], of cs nd] 2 5 Cons.prems(3)
    by simp
qed


lemma deliver_first_write:
  assumes c: "wire_ok c" and cs: "cs < 2 ^ 64" and nm: "length name < cs"
    and ch: "\<forall>ch \<in> set chunks. length ch = cs"
    and st: "s_in st = []" "s_file st = None"
    and p: "p = resolve nd (c_str (length name) (name @ drop (length name) (s_buf st)))"
    and cr: "creatable nd p"
  shows "s_disk (deliver cs c nd st ((path_header name, name) # map (Pair (data_header cs)) chunks))
           = (s_disk st)(p \<mapsto> concat chunks)
     \<and> s_off (deliver cs c nd st ((path_header name, name) # map (Pair (data_header cs)) chunks))
           = Some (int (length (concat chunks)))
     \<and> s_file (deliver cs c nd st ((path_header name, name) # map (Pair (data_header cs)) chunks))
           = Some \<lparr> f_path = Some p, f_fail = False \<rparr>
     \<and> s_in (deliver cs c nd st ((path_header name, name) # map (Pair (data_header cs)) chunks)) = []
     \<and> s_out (deliver cs c nd st ((path_header name, name) # map (Pair (data_header cs)) chunks))
           = s_out st"
proof -
  let ?fs = "map (Pair (data_header cs)) chunks"
  let ?st0 = "st\<lparr> s_in := s_in st @ wire c ((path_header name, name) # ?fs) \<rparr>"
  let ?st1 = "handler_step cs c nd ?st0"
  have i: "s_in ?st0 = enc c (path_header name) @ name @ wire c ?fs"
    using st(1) by (simp add: wire_Cons)
  have st1: "?st1 = slog ''Server: Client opened path for writing''
      (st\<lparr> s_in := wire c ?fs, s_hdr := path_header name,
           s_buf := (name @ drop (length name) (s_buf st))[length name := 0],
           s_file := Some \<lparr> f_path = Some p, f_fail = False \<rparr>,
           s_disk := (s_disk st)(p \<mapsto> []), s_off := Some 0 \<rparr>)"
    using step_write_path [OF c i nm cs, of nd] st(2) p cr
    by (simp add: fstream_open_trunc_def slog_def Let_def)
  have 1: "s_in ?st1 = wire c ?fs"
    and 2: "s_file ?st1 = Some \<lparr> f_path = Some p, f_fail = False \<rparr>"
    and 3: "s_off ?st1 = Some (int (length ([] :: byte list)))"
    and 4: "s_disk ?st1 p = Some []"
    and 5: "s_disk ?st1 = (s_disk st)(p \<mapsto> [])"
    and 6: "s_out ?st1 = s_out st"
    by (simp_all add: st1 slog_def)
  have l: "deliver cs c nd st ((path_header name, name) # ?fs) = handler_loop cs c nd ?st1"
    unfolding deliver_def using handler_loop_step [OF header_arrived [OF c i], of cs nd] .
  show ?thesis
    unfolding l using loop_writes [OF c cs ch 1 2 3 4, of nd] 2 5 6
    by (auto simp: fun_eq_iff)
qed

lemma deliver_second_write:
  assumes c: "wire_ok c" and cs: "cs < 2 ^ 64" and nm: "length name < cs"
    and ch: "\<forall>ch \<in> set chunks. length ch = cs"
    and st: "s_in st = []" "s_file st = Some f" "f_path f = Some p0"
  shows "s_disk (deliver cs c nd st ((path_header name, name) # map (Pair (data_header cs)) chunks))
           = s_disk st
     \<and> s_off (deliver cs c nd st ((path_header name, name) # map (Pair (data_header cs)) chunks))
           = Some 0
     \<and> s_file (deliver cs c nd st ((path_header name, name) # map (Pair (data_header cs)) chunks))
           = Some (f\<lparr> f_fail := True \<rparr>)
     \<and> s_in (deliver cs c nd st ((path_header name, name) # map (Pair (data_header cs)) chunks)) = []"
proof -
  let ?fs = "map (Pair (data_header cs)) chunks"
  let ?st0 = "st\<lparr> s_in := s_in st @ wire c ((path_header name, name) # ?fs) \<rparr>"
  let ?st1 = "handler_step cs c nd ?st0"
  have i: "s_in ?st0 = enc c (path_header name) @ name @ wire c ?fs"
    using st(1) by (simp add: wire_Cons)
  have st1: "?st1 = slog ''Server: Client opened path for writing''
      (st\<lparr> s_in := wire c ?fs, s_hdr := path_header name,
           s_buf := (name @ drop (length name) (s_buf st))[length name := 0],
           s_file := Some (f\<lparr> f_fail := True \<rparr>), s_off := Some 0 \<rparr>)"
    using step_write_path [OF c i nm cs, of nd] st(2,3)
    by (simp add: fstream_open_trunc_def slog_def Let_def)
  have 1: "s_in ?st1 = wire c ?fs"
    and 2: "s_file ?st1 = Some (f\<lparr> f_fail := True \<rparr>)"
    and 3: "s_off ?st1 = Some 0"
    and 5: "s_disk ?st1 = s_disk st"
    by (simp_all add: st1 slog_def)
  have f: "f_path (f\<lparr> f_fail := True \<rparr>) = Some p0" "f_fail (f\<lparr> f_fail := True \<rparr>)"
    using st(3) by simp_all
  have l: "deliver cs c nd st ((path_header name, name) # ?fs) = handler_loop cs c nd ?st1"
    unfolding deliver_def using handler_loop_step [OF header_arrived [OF c i], of cs nd] .
  show ?thesis
    unfolding l using loop_writes_failed [OF c cs ch 1 2 f 3, of nd] 2 5
    by simp
qed


section \<open>Facts about the striped write\<close>

lemma fold_lanes:
  assumes g: "\<And>s i. i < n \<Longrightarrow> length (w_sent s) = n \<Longrightarrow> w_servers s = srv \<Longrightarrow>
      w_servers (g i s) = srv \<and> w_sent (g i s) = (w_sent s)[i := w_sent s ! i @ [fr i]]"
  shows "m \<le> n \<Longrightarrow> length (w_sent s0) = n \<Longrightarrow> w_servers s0 = srv \<Longrightarrow>
     w_servers (fold g [0..<m] s0) = srv \<and>
     w_sent (fold g [0..<m] s0) =
       map (\<lambda>i. if i < m then w_sent s0 ! i @ [fr i] else w_sent s0 ! i) [0..<n]"
proof (induction m)
  case 0
  then show ?case by (auto intro!: nth_equalityI)
next
  case (Suc m)
  let ?s = "fold g [0..<m] s0"
  have ih: "w_servers ?s = srv"
    "w_sent ?s = map (\<lambda>i. if i < m then w_sent s0 ! i @ [fr i] else w_sent s0 ! i) [0..<n]"
    using Suc by simp_all
  have len: "length (w_sent ?s) = n" by (simp add: ih)
  have m: "m < n" using Suc.prems by simp
  from g [OF m len ih(1)]
  have "w_servers (g m ?s) = srv"
    and "w_sent (g m ?s) = (w_sent ?s)[m := w_sent ?s ! m @ [fr m]]" by simp_all
  moreover have "(w_sent ?s)[m := w_sent ?s ! m @ [fr m]] =
      map (\<lambda>i. if i < Suc m then w_sent s0 ! i @ [fr i] else w_sent s0 ! i) [0..<n]"
    using m by (auto simp: ih(2) intro!: nth_equalityI simp: nth_list_update)
  ultimately show ?case by simp
qed

lemma stride_size_pos: "0 < cs \<Longrightarrow> 0 < n \<Longrightarrow> 0 < stride_size cs n"
  by (auto simp: stride_size_def)

lemma total_strides_less:
  assumes "0 < stride_size cs n" "k < total_strides cs n sz"
  shows "k * stride_size cs n < sz"
proof -
  let ?S = "stride_size cs n"
  have d: "sz = sz div ?S * ?S + sz mod ?S" by (metis div_mult_mod_eq)
  show ?thesis
  proof (cases "sz mod ?S > 0")
    case True
    then have "k \<le> sz div ?S" using assms(2) by (simp add: total_strides_def)
    then have "k * ?S \<le> sz div ?S * ?S" by simp
    then show ?thesis using True d by linarith
  next
    case False
    then have "k < sz div ?S" using assms(2) by (simp add: total_strides_def)
    then have "Suc k * ?S \<le> sz div ?S * ?S" using Suc_leI mult_le_mono1 by blast
    then show ?thesis using assms(1) d by simp
  qed
qed


lemma send_paths_live:
  assumes live: "\<forall>i<n. srv ! i \<noteq> -1" and ok: "\<forall>i m. link i m = SendOK"
    and s0: "length (w_sent s0) = n" "w_servers s0 = srv"
  shows "w_servers (fold (\<lambda>i s. send_path link path s i) [0..<n] s0) = srv \<and>
     w_sent (fold (\<lambda>i s. send_path link path s i) [0..<n] s0) =
       map (\<lambda>i. w_sent s0 ! i @ [(path_header path, path)]) [0..<n]"
proof -
  have "w_servers (fold (\<lambda>i s. send_path link path s i) [0..<n] s0) = srv \<and>
     w_sent (fold (\<lambda>i s. send_path link path s i) [0..<n] s0) =
       map (\<lambda>i. if i < n then w_sent s0 ! i @ [(path_header path, path)] else w_sent s0 ! i) [0..<n]"
    by (rule fold_lanes [where fr = "\<lambda>i. (path_header path, path)"])
       (use live ok s0 in \<open>auto simp: send_path_def\<close>)
  then show ?thesis by (auto cong: map_cong)
qed

lemma send_stride_live:
  assumes live: "\<forall>i<n. srv ! i \<noteq> -1" and ok: "\<forall>i m. link i m = SendOK"
    and s0: "length (w_sent s) = n" "w_servers s = srv"
  shows "fst (send_stride cs n link b k (cur, s)) = cur + bytes_in_this_stride cs n (length b) cur \<and>
     w_servers (snd (send_stride cs n link b k (cur, s))) = srv \<and>
     w_sent (snd (send_stride cs n link b k (cur, s))) =
       map (\<lambda>i. w_sent s ! i @ [(data_header cs,
              chunk_to_send cs n i (data_chunks_buf cs n b cur)
                (parity_chunk cs n (data_chunks_buf cs n b cur)))]) [0..<n]"
proof -
  let ?dbuf = "data_chunks_buf cs n b cur"
  let ?fr = "\<lambda>i. (data_header cs, chunk_to_send cs n i ?dbuf (parity_chunk cs n ?dbuf))"
  let ?st1 = "s\<lparr> w_log := w_log s @ [''myfs_write: Processing stride''] \<rparr>"
  let ?g = "\<lambda>i s'. if w_servers ?st1 ! i \<noteq> -1
              then send_chunk cs link k (chunk_to_send cs n i ?dbuf (parity_chunk cs n ?dbuf)) s' i
              else s'"
  have "w_servers (fold ?g [0..<n] ?st1) = srv \<and>
     w_sent (fold ?g [0..<n] ?st1) =
       map (\<lambda>i. if i < n then w_sent ?st1 ! i @ [?fr i] else w_sent ?st1 ! i) [0..<n]"
    by (rule fold_lanes [where fr = ?fr])
       (use live ok s0 in \<open>auto simp: send_chunk_def\<close>)
  then have "w_servers (fold ?g [0..<n] ?st1) = srv"
    and "w_sent (fold ?g [0..<n] ?st1) = map (\<lambda>i. w_sent s ! i @ [?fr i]) [0..<n]"
    by (auto cong: map_cong)
  then show ?thesis
    by (simp add: send_stride_def Let_def)
qed

lemma send_strides_live:
  assumes live: "\<forall>i<n. srv ! i \<noteq> -1" and ok: "\<forall>i m. link i m = SendOK"
    and s0: "length (w_sent s0) = n" "w_servers s0 = srv"
    and S: "0 < stride_size cs n"
  shows "t \<le> total_strides cs n (length b) \<Longrightarrow>
     fst (fold (send_stride cs n link b) [0..<t] (0, s0)) = min (length b) (t * stride_size cs n) \<and>
     w_servers (snd (fold (send_stride cs n link b) [0..<t] (0, s0))) = srv \<and>
     w_sent (snd (fold (send_stride cs n link b) [0..<t] (0, s0))) =
       map (\<lambda>i. w_sent s0 ! i @ map (Pair (data_header cs)) (map (lane_chunk cs n b i) [0..<t])) [0..<n]"
proof (induction t)
  case 0
  then show ?case using s0 by (auto intro!: nth_equalityI)
next
  case (Suc t)
  let ?r = "fold (send_stride cs n link b) [0..<t] (0, s0)"
  have ih: "fst ?r = min (length b) (t * stride_size cs n)" "w_servers (snd ?r) = srv"
    "w_sent (snd ?r) =
       map (\<lambda>i. w_sent s0 ! i @ map (Pair (data_header cs)) (map (lane_chunk cs n b i) [0..<t])) [0..<n]"
    using Suc by simp_all
  have lt: "t * stride_size cs n < length b"
    using total_strides_less [OF S] Suc.prems by simp
  then have cur: "fst ?r = t * stride_size cs n" using ih(1) by simp
  have len: "length (w_sent (snd ?r)) = n" by (simp add: ih(3))
  have r: "?r = (t * stride_size cs n, snd ?r)" using cur by (metis prod.collapse)
  have step: "fold (send_stride cs n link b) [0..<Suc t] (0, s0)
      = send_stride cs n link b t (t * stride_size cs n, snd ?r)"
    using r by simp
  have b: "t * stride_size cs n + bytes_in_this_stride cs n (length b) (t * stride_size cs n)
      = min (length b) (Suc t * stride_size cs n)"
    using lt unfolding bytes_in_this_stride_def by (simp add: min_def) linarith
  show ?case
    unfolding step using send_stride_live [OF live ok len ih(2), of cs b t "t * stride_size cs n"] b
    by (auto simp: ih(3) lane_chunk_def Let_def)
qed


lemma myfs_write_sent:
  assumes n: "n = length (w_servers st)" and live: "\<forall>i<n. w_servers st ! i \<noteq> -1"
    and ok: "\<forall>i m. link i m = SendOK" and len: "length (w_sent st) = n"
    and pos: "0 < cs" "0 < n"
  shows "w_servers (w_state (myfs_write cs link pw path b 0 fh st)) = w_servers st \<and>
     w_sent (w_state (myfs_write cs link pw path b 0 fh st)) =
       map (\<lambda>i. w_sent st ! i @ lane_frames cs n path b i) [0..<n] \<and>
     w_ret (myfs_write cs link pw path b 0 fh st) = to_int32 (int (length b)) \<and>
     w_local (myfs_write cs link pw path b 0 fh st) = fh"
proof -
  let ?st0 = "st\<lparr> w_log := w_log st @ [''myfs_write: path, size, offset, n, stride_size, total_strides''] \<rparr>"
  let ?st1 = "fold (\<lambda>i s. send_path link path s i) [0..<n] ?st0"
  let ?t = "total_strides cs n (length b)"
  let ?r = "fold (send_stride cs n link b) [0..<?t] (0, ?st1)"
  have p: "w_servers ?st1 = w_servers st"
    "w_sent ?st1 = map (\<lambda>i. w_sent st ! i @ [(path_header path, path)]) [0..<n]"
    using send_paths_live [OF live ok, of ?st0 path] len by simp_all
  have l1: "length (w_sent ?st1) = n" by (simp add: p(2))
  have s: "w_servers (snd ?r) = w_servers st"
    "w_sent (snd ?r) = map (\<lambda>i. w_sent ?st1 ! i @
        map (Pair (data_header cs)) (map (lane_chunk cs n b i) [0..<?t])) [0..<n]"
    using send_strides_live [OF live ok l1 p(1) stride_size_pos [OF pos], of ?t b] by simp_all
  have "w_sent (snd ?r) = map (\<lambda>i. w_sent st ! i @ lane_frames cs n path b i) [0..<n]"
    unfolding s(2) by (simp add: p(2) lane_frames_def)
  then show ?thesis
    using s(1) n by (simp add: myfs_write_def Let_def)
qed

lemma fold_xor_foldr: "fold (\<lambda>x a. a XOR x) xs (a0 :: byte) = a0 XOR foldr (XOR) xs 0"
  by (induction xs arbitrary: a0) (simp_all add: xor.assoc)

lemma fold_xor_block:
  "length p = cs \<Longrightarrow> length (fold (xor_block cs dbuf) [0..<m] p) = cs \<and>
     (\<forall>j<cs. fold (xor_block cs dbuf) [0..<m] p ! j
        = fold (\<lambda>x a. a XOR x) (map (\<lambda>i. dbuf ! (i * cs + j)) [0..<m]) (p ! j))"
  by (induction m) (auto simp: xor_block_def)

lemma parity_chunk_nth:
  assumes "1 < n" "j < cs"
  shows "parity_chunk cs n dbuf ! j = xor_all (map (\<lambda>i. dbuf ! (i * cs + j)) [0..<n - 1])"
  using assms fold_xor_block [of "replicate cs 0" cs dbuf "n - 1"]
  by (simp add: parity_chunk_def xor_all_def fold_xor_foldr)

lemma length_parity_chunk: "length (parity_chunk cs n dbuf) = cs"
  using fold_xor_block [of "replicate cs 0" cs dbuf "n - 1"] by (simp add: parity_chunk_def)

lemma length_data_chunks_buf: "length (data_chunks_buf cs n b cur) = stride_size cs n"
  by (auto simp: data_chunks_buf_def Let_def bytes_in_this_stride_def)

lemma data_chunk_nth:
  assumes "1 < n" "d < n - 1" "j < cs"
  shows "data_chunk cs n b k d ! j = data_chunks_buf cs n b (k * stride_size cs n) ! (d * cs + j)"
proof -
  have "d * cs + cs \<le> (n - 1) * cs"
    using assms(2) by (metis Suc_leI mult_Suc mult_le_mono1 add.commute)
  then have "d * cs + j < length (data_chunks_buf cs n b (k * stride_size cs n))"
    using assms by (simp add: length_data_chunks_buf stride_size_def mult.commute)
  then show ?thesis
    using assms(3) by (simp add: data_chunk_def)
qed


lemma to_int32_id: "- (2 ^ 31) \<le> x \<Longrightarrow> x < 2 ^ 31 \<Longrightarrow> to_int32 x = x"
  unfolding to_int32_def by (simp add: sint_sbintrunc' signed_take_bit_int_eq_self)

lemma block_fits:
  assumes "i < m"
  shows "i * cs + cs \<le> m * (cs :: nat)"
proof -
  have "Suc i * cs \<le> m * cs" using assms by (intro mult_le_mono1) simp
  then show ?thesis by (simp add: add.commute)
qed

lemma length_lane_chunk:
  assumes "i < n"
  shows "length (lane_chunk cs n b i k) = cs"
proof -
  let ?dbuf = "data_chunks_buf cs n b (k * stride_size cs n)"
  have l: "length ?dbuf = stride_size cs n" by (rule length_data_chunks_buf)
  show ?thesis
  proof (cases "n = 1")
    case True
    then have "stride_size cs n = cs" by (simp add: stride_size_def)
    then have "length (take cs ?dbuf) = cs" using l by simp
    then show ?thesis unfolding lane_chunk_def chunk_to_send_def Let_def using True by simp
  next
    case False
    then have S: "stride_size cs n = (n - 1) * cs" by (simp add: stride_size_def)
    show ?thesis
    proof (cases "i < n - 1")
      case True
      have "i * cs + cs \<le> stride_size cs n"
        unfolding S using True by (rule block_fits)
      then have "length (take cs (drop (i * cs) ?dbuf)) = cs" using l by simp
      then show ?thesis
        unfolding lane_chunk_def chunk_to_send_def Let_def using True False by simp
    next
      case f: False
      then show ?thesis
        unfolding lane_chunk_def chunk_to_send_def Let_def
        using False by (simp add: length_parity_chunk)
    qed
  qed
qed

lemma lane_chunk_data:
  assumes "1 < n" "d < n - 1"
  shows "lane_chunk cs n b d k = data_chunk cs n b k d"
  using assms by (simp add: lane_chunk_def chunk_to_send_def data_chunk_def)

lemma lane_chunk_parity:
  assumes "1 < n"
  shows "lane_chunk cs n b (n - 1) k = parity_chunk cs n (data_chunks_buf cs n b (k * stride_size cs n))"
  using assms by (simp add: lane_chunk_def chunk_to_send_def)

lemma lane_frames_nth:
  assumes "k < total_strides cs n (length b)"
  shows "lane_frames cs n path b i ! Suc k = (data_header cs, lane_chunk cs n b i k)"
  using assms by (simp add: lane_frames_def)


lemma c_str_name:
  assumes "length name < length bf"
  shows "c_str (length name) (name @ drop (length name) bf) = takeWhile (\<lambda>x. x \<noteq> 0) name"
proof -
  have "(name @ drop (length name) bf)[length name := 0] = name @ 0 # drop (Suc (length name)) bf"
    using assms by (simp add: list_update_append upd_conv_take_nth_drop drop_Suc flip: Cons_nth_drop_Suc)
  then show ?thesis
    by (auto simp: c_str_def takeWhile_append takeWhile_eq_all_conv [THEN iffD2, symmetric])
qed

lemma length_concat_chunks:
  "\<forall>ch \<in> set chunks. length ch = cs \<Longrightarrow> length (concat chunks) = length chunks * cs"
  by (induction chunks) simp_all

lemma lane_frames_chunks:
  assumes "i < n"
  shows "\<forall>ch \<in> set (map (lane_chunk cs n b i) [0..<t]). length ch = cs"
  using length_lane_chunk [OF assms] by simp

lemma total_strides_ceil:
  assumes "0 < stride_size cs n"
  shows "total_strides cs n sz = (sz + stride_size cs n - 1) div stride_size cs n"
proof -
  let ?S = "stride_size cs n"
  let ?q = "sz div ?S" and ?r = "sz mod ?S"
  have sz: "sz = ?S * ?q + ?r" by simp
  have r: "?r < ?S" using assms by simp
  show ?thesis
  proof (cases "?r = 0")
    case True
    have "(sz + ?S - 1) div ?S = ?q"
    proof (rule div_nat_eqI)
      show "?S * ?q \<le> sz + ?S - 1" using sz assms by linarith
      have "sz = ?S * ?q" using sz True by simp
      then show "sz + ?S - 1 < ?S * Suc ?q" using assms by simp
    qed
    then show ?thesis using True by (simp add: total_strides_def)
  next
    case False
    have "(sz + ?S - 1) div ?S = Suc ?q"
    proof (rule div_nat_eqI)
      have "?S * Suc ?q = ?S * ?q + ?S" by simp
      also have "\<dots> \<le> sz + ?S - 1" using sz False by linarith
      finally show "?S * Suc ?q \<le> sz + ?S - 1" .
      have "sz + ?S - 1 < ?S * ?q + ?S + ?S" using sz r by linarith
      then show "sz + ?S - 1 < ?S * Suc (Suc ?q)" by simp
    qed
    then show ?thesis using False by (simp add: total_strides_def)
  qed
qed

lemma first_write_node_file:
  assumes c: "wire_ok c" and cs: "cs < 2 ^ 64" "0 < cs"
    and n: "n = length (w_servers st)" and live: "\<forall>i<n. w_servers st ! i \<noteq> -1"
    and ok: "\<forall>i m. link i m = SendOK" and sent: "w_sent st = replicate n []"
    and i: "i < n" and nm: "length path < cs"
    and nst: "s_in nst = []" "s_file nst = None" "length (s_buf nst) = cs"
    and cr: "creatable nd (resolve nd (takeWhile (\<lambda>x. x \<noteq> 0) path))"
  shows "s_disk (deliver cs c nd nst (w_sent (w_state (myfs_write cs link pw path b 0 fh st)) ! i))
           = (s_disk nst)(resolve nd (takeWhile (\<lambda>x. x \<noteq> 0) path) \<mapsto>
                concat (map (lane_chunk cs n b i) [0..<total_strides cs n (length b)]))
     \<and> length (concat (map (lane_chunk cs n b i) [0..<total_strides cs n (length b)]))
           = total_strides cs n (length b) * cs
     \<and> s_out (deliver cs c nd nst (w_sent (w_state (myfs_write cs link pw path b 0 fh st)) ! i))
           = s_out nst
     \<and> s_in (deliver cs c nd nst (w_sent (w_state (myfs_write cs link pw path b 0 fh st)) ! i)) = []"
proof -
  let ?t = "total_strides cs n (length b)"
  let ?chunks = "map (lane_chunk cs n b i) [0..<?t]"
  have len: "length (w_sent st) = n" using sent by simp
  have n0: "0 < n" using i by simp
  have "w_sent (w_state (myfs_write cs link pw path b 0 fh st)) =
       map (\<lambda>i. w_sent st ! i @ lane_frames cs n path b i) [0..<n]"
    using myfs_write_sent [OF n live ok len cs(2) n0, of pw path b fh] by blast
  then have fr: "w_sent (w_state (myfs_write cs link pw path b 0 fh st)) ! i
      = (path_header path, path) # map (Pair (data_header cs)) ?chunks"
    using i sent by (simp add: lane_frames_def)
  have p: "resolve nd (takeWhile (\<lambda>x. x \<noteq> 0) path)
      = resolve nd (c_str (length path) (path @ drop (length path) (s_buf nst)))"
    using c_str_name [of path "s_buf nst"] nm nst(3) by simp
  have l: "length (concat ?chunks) = ?t * cs"
    using length_concat_chunks [OF lane_frames_chunks [OF i, of cs b ?t]] by simp
  have cr': "creatable nd (resolve nd (c_str (length path) (path @ drop (length path) (s_buf nst))))"
    using cr p by simp
  note D = deliver_first_write [OF c cs(1) nm lane_frames_chunks [OF i, of cs b ?t] nst(1,2) refl cr']
  show ?thesis
    unfolding fr p using D l by blast
qed


lemma conn_after_write_fields:
  "s_in conn_after_write = []"
  "s_file conn_after_write = Some \<lparr> f_path = Some [97], f_fail = False \<rparr>"
  "s_disk conn_after_write = [[97] \<mapsto> [1, 2]]"
  "s_off conn_after_write = Some 2"
proof -
  have p: "[97] = resolve plain_node (c_str (length [97 :: byte])
      ([97] @ drop (length [97 :: byte]) (s_buf (fresh_conn 2))))"
    by (simp add: plain_node_def c_str_def fresh_conn_def)
  have "s_in (fresh_conn 2) = []" "s_file (fresh_conn 2) = None" "creatable plain_node [97]"
    by (simp_all add: fresh_conn_def plain_node_def)
  from deliver_first_write [OF wire_ok_lp64 _ _ _ this(1,2) p this(3), of 2 "[[1, 2]]"]
  show "s_in conn_after_write = []"
    "s_file conn_after_write = Some \<lparr> f_path = Some [97], f_fail = False \<rparr>"
    "s_disk conn_after_write = [[97] \<mapsto> [1, 2]]"
    "s_off conn_after_write = Some 2"
    by (simp_all add: conn_after_write_def fresh_conn_def)
qed


section \<open>The claims about the write path\<close>

text \<open>
  \<^bold>\<open>C2.\<close>  In a write at offset 0 with \<open>n > 1\<close> lanes, all live and reachable,
  the frame sent to the parity lane \<open>n - 1\<close> for stride \<open>k\<close> carries \<open>cs\<close> bytes,
  and byte \<open>j\<close> of it is the XOR of byte \<open>j\<close> of the \<open>n - 1\<close> data chunks of the
  zero-padded stride buffer; those data chunks are what the data lanes are sent.
\<close>

theorem parity_chunk_sent_is_xor:
  assumes "n = length (w_servers st)" and "1 < n" and "\<forall>i<n. w_servers st ! i \<noteq> -1"
    and "\<forall>i m. link i m = SendOK" and "w_sent st = replicate n []" and "0 < cs"
    and "k < total_strides cs n (length b)"
  shows "w_sent (w_state (myfs_write cs link pw path b 0 fh st)) ! (n - 1) ! Suc k
           = (data_header cs, lane_chunk cs n b (n - 1) k)
     \<and> length (lane_chunk cs n b (n - 1) k) = cs
     \<and> (\<forall>j<cs. lane_chunk cs n b (n - 1) k ! j
            = xor_all (map (\<lambda>d. data_chunk cs n b k d ! j) [0..<n - 1]))
     \<and> (\<forall>d<n - 1. w_sent (w_state (myfs_write cs link pw path b 0 fh st)) ! d ! Suc k
            = (data_header cs, data_chunk cs n b k d))"
proof -
  have len: "length (w_sent st) = n" using assms(5) by simp
  have n0: "0 < n" using assms(2) by simp
  have sent: "w_sent (w_state (myfs_write cs link pw path b 0 fh st)) =
       map (\<lambda>i. w_sent st ! i @ lane_frames cs n path b i) [0..<n]"
    using myfs_write_sent [OF assms(1,3,4) len assms(6) n0, of pw path b fh] by blast
  have lane: "\<And>i. i < n \<Longrightarrow>
      w_sent (w_state (myfs_write cs link pw path b 0 fh st)) ! i ! Suc k
        = (data_header cs, lane_chunk cs n b i k)"
    using assms(5,7) by (simp add: sent lane_frames_nth)
  have x: "\<And>j. j < cs \<Longrightarrow> lane_chunk cs n b (n - 1) k ! j
            = xor_all (map (\<lambda>d. data_chunk cs n b k d ! j) [0..<n - 1])"
  proof -
    fix j assume j: "j < cs"
    let ?dbuf = "data_chunks_buf cs n b (k * stride_size cs n)"
    have "map (\<lambda>d. data_chunk cs n b k d ! j) [0..<n - 1]
        = map (\<lambda>d. ?dbuf ! (d * cs + j)) [0..<n - 1]"
      by (rule map_cong [OF refl]) (use data_chunk_nth [OF assms(2) _ j] in auto)
    then have "xor_all (map (\<lambda>d. data_chunk cs n b k d ! j) [0..<n - 1])
        = parity_chunk cs n ?dbuf ! j"
      using parity_chunk_nth [OF assms(2) j, of ?dbuf] by (simp only:)
    then show "lane_chunk cs n b (n - 1) k ! j
            = xor_all (map (\<lambda>d. data_chunk cs n b k d ! j) [0..<n - 1])"
      by (simp only: lane_chunk_parity [OF assms(2)])
  qed
  show ?thesis
    using lane [of "n - 1"] lane x assms(2) length_lane_chunk [of "n - 1" n cs b k]
    by (simp add: lane_chunk_data [OF assms(2)])
qed


lemma parity_example: "lane_chunk 2 3 [1, 2, 3, 4, 5] 2 1 = [5, 0]"
  by code_simp

theorem parity_chunk_sent_is_xor_witness:
  "w_sent (w_state (myfs_write 2 link_up pwrite_all [47, 97] [1, 2, 3, 4, 5] 0 () three_lanes)) ! 2 ! 2
     = (data_header 2, [5, 0])
   \<and> [5, 0] ! 0 = xor_all (map (\<lambda>d. data_chunk 2 3 [1, 2, 3, 4, 5] 1 d ! 0) [0..<2])"
proof -
  let ?b = "[1, 2, 3, 4, 5] :: byte list"
  have h1: "3 = length (w_servers three_lanes)" by (simp add: three_lanes_def)
  have h2: "(1::nat) < 3" by simp
  have h3: "\<forall>i<3. w_servers three_lanes ! i \<noteq> -1"
    by (simp add: three_lanes_def less_Suc_eq numeral_3_eq_3)
  have h4: "\<forall>i m. link_up i m = SendOK" by (simp add: link_up_def)
  have h5: "w_sent three_lanes = replicate 3 []" by (simp add: three_lanes_def numeral_3_eq_3)
  have h6: "(0::nat) < 2" by simp
  have h7: "1 < total_strides 2 3 (length ?b)"
    by (simp add: total_strides_def stride_size_def)
  note T = parity_chunk_sent_is_xor [OF h1 h2 h3 h4 h5 h6 h7, of pwrite_all "[47, 97]" "()"]
  have e: "(3::nat) - 1 = 2" "Suc 1 = 2" by simp_all
  from T have a: "w_sent (w_state (myfs_write 2 link_up pwrite_all [47, 97] ?b 0 () three_lanes)) ! 2 ! 2
      = (data_header 2, lane_chunk 2 3 ?b 2 1)"
    unfolding e by (rule conjunct1)
  from T have "\<forall>j<2. lane_chunk 2 3 ?b 2 1 ! j
      = xor_all (map (\<lambda>d. data_chunk 2 3 ?b 1 d ! j) [0..<2])"
    unfolding e by blast
  then have b: "lane_chunk 2 3 ?b 2 1 ! 0 = xor_all (map (\<lambda>d. data_chunk 2 3 ?b 1 d ! 0) [0..<2])"
    by simp
  show ?thesis
    using a b unfolding parity_example by (rule conjI)
qed

text \<open>
  \<^bold>\<open>C9.\<close>  A write at a nonzero offset sends nothing on any lane and changes no
  lane state; it logs the warning and returns what \<open>pwrite\<close> of the buffer to the
  local file at that offset returns (converted to \<open>int\<close>, which changes nothing
  when the count fits an \<open>int\<close>).
\<close>

theorem write_nonzero_offset_passthrough:
  assumes "offset \<noteq> 0"
  shows "w_sent (w_state (myfs_write cs link pw path b offset fh st)) = w_sent st
     \<and> w_servers (w_state (myfs_write cs link pw path b offset fh st)) = w_servers st
     \<and> w_log (w_state (myfs_write cs link pw path b offset fh st)) = w_log st @
         [''Warning: myfs_write only supports offset=0 in this simplified version. Falling back to local write.'']
     \<and> w_ret (myfs_write cs link pw path b offset fh st) = to_int32 (fst (pw fh b offset))
     \<and> w_local (myfs_write cs link pw path b offset fh st) = snd (pw fh b offset)
     \<and> (- (2 ^ 31) \<le> fst (pw fh b offset) \<and> fst (pw fh b offset) < 2 ^ 31 \<longrightarrow>
          w_ret (myfs_write cs link pw path b offset fh st) = fst (pw fh b offset))"
proof -
  have "- (2 ^ 31) \<le> x \<and> x < 2 ^ 31 \<longrightarrow> to_int32 x = x" for x :: int
    using to_int32_id [of x] by blast
  then show ?thesis
    using assms by (simp add: myfs_write_def Let_def)
qed


theorem write_nonzero_offset_passthrough_witness:
  "w_sent (w_state (myfs_write 2 link_up pwrite_all [47, 97] [1, 2, 3] 4096 () three_lanes)) = [[], [], []]
   \<and> w_servers (w_state (myfs_write 2 link_up pwrite_all [47, 97] [1, 2, 3] 4096 () three_lanes)) = [3, 4, 5]
   \<and> w_ret (myfs_write 2 link_up pwrite_all [47, 97] [1, 2, 3] 4096 () three_lanes) = 3"
  using write_nonzero_offset_passthrough [of 4096 2 link_up pwrite_all "[47, 97]" "[1, 2, 3]" "()" three_lanes]
  by (simp add: three_lanes_def pwrite_all_def)

section \<open>The claims about the node server\<close>

text \<open>
  \<^bold>\<open>C10.\<close>  A \<open>MSG_WRITE\<close> header that announces more than the chunk size: the
  handler logs, writes nothing to any file, leaves the cursor and the open
  stream as they are and reads none of the payload.  The connection stays open:
  the loop goes on with the payload bytes as its input, and the next header is
  decoded from the first bytes of the payload.
\<close>

theorem oversized_write_not_drained:
  assumes "wire_ok c" and "mtype h = MSG_WRITE" and "cs < unat (mlength h)"
    and "s_in st = enc c h @ payload"
  shows "handler_step cs c nd st =
           slog ''Server: Data length too large'' (st\<lparr> s_in := payload, s_hdr := h \<rparr>)
       \<and> s_in (handler_step cs c nd st) = payload
       \<and> s_disk (handler_step cs c nd st) = s_disk st
       \<and> s_off (handler_step cs c nd st) = s_off st
       \<and> s_file (handler_step cs c nd st) = s_file st
       \<and> handler_loop cs c nd st = handler_loop cs c nd (handler_step cs c nd st)
       \<and> s_hdr (recv_header c (handler_step cs c nd st)) = upd c h (take (hsz c) payload)"
proof -
  have r: "recv_header c st = st\<lparr> s_in := payload, s_hdr := h \<rparr>"
    using recv_header_frame assms(1,4) .
  have 1: "handler_step cs c nd st =
      slog ''Server: Data length too large'' (st\<lparr> s_in := payload, s_hdr := h \<rparr>)"
    unfolding handler_step_def r dispatch_def using assms(2,3)
    by (simp add: do_write_def)
  have "length (enc c h) = hsz c" and "0 < hsz c"
    using assms(1) by (simp_all add: wire_ok_def)
  then have ne: "take (hsz c) (s_in st) \<noteq> []"
    using assms(4) by auto
  have 2: "handler_loop cs c nd st = handler_loop cs c nd (handler_step cs c nd st)"
    using ne by (subst handler_loop.simps) simp
  show ?thesis
    using 2 by (simp add: 1 slog_def recv_header_def)
qed

theorem oversized_write_not_drained_witness:
  "wire_ok lp64_codec
   \<and> s_in (handler_step 2 lp64_codec plain_node
        ((fresh_conn 2)\<lparr> s_in := lp64_enc \<lparr> mtype = MSG_WRITE, mlength = 3 \<rparr> @ [7, 8, 9] \<rparr>)) = [7, 8, 9]
   \<and> s_disk (handler_step 2 lp64_codec plain_node
        ((fresh_conn 2)\<lparr> s_in := lp64_enc \<lparr> mtype = MSG_WRITE, mlength = 3 \<rparr> @ [7, 8, 9] \<rparr>)) = Map.empty
   \<and> s_off (handler_step 2 lp64_codec plain_node
        ((fresh_conn 2)\<lparr> s_in := lp64_enc \<lparr> mtype = MSG_WRITE, mlength = 3 \<rparr> @ [7, 8, 9] \<rparr>)) = None"
proof -
  let ?h = "\<lparr> mtype = MSG_WRITE, mlength = 3 \<rparr>"
  let ?st = "(fresh_conn 2)\<lparr> s_in := lp64_enc ?h @ [7, 8, 9] \<rparr>"
  have a: "mtype ?h = MSG_WRITE" and b: "2 < unat (mlength ?h)"
    and i: "s_in ?st = enc lp64_codec ?h @ [7, 8, 9]"
    by (simp_all add: enc_lp64)
  have d: "s_disk ?st = Map.empty" and e: "s_off ?st = None"
    by (simp_all add: fresh_conn_def)
  show ?thesis
    using oversized_write_not_drained [OF wire_ok_lp64 a b i, of plain_node] wire_ok_lp64 d e
    by (simp add: slog_def)
qed

text \<open>
  \<^bold>\<open>C8.\<close>  What the handler does with a second \<open>MSG_WRITE_PATH\<close> on a
  connection whose stream is open on a file \<open>p0\<close>: \<open>open\<close> is called on the open
  stream, which fails, so the stream stays on \<open>p0\<close> with \<open>failbit\<close> set; the check
  \<open>is_open()\<close> passes and the cursor is set to 0.  Every \<open>MSG_WRITE\<close> after it
  fails: no file changes, the newly named file is neither created nor written.
  The claim (rotation to the new file) does not hold of the code.
\<close>

theorem second_write_path_keeps_old_file:
  assumes "wire_ok c" and "cs < 2 ^ 64" and "length name < cs"
    and "\<forall>ch \<in> set chunks. length ch = cs"
    and "s_in st = []" and "s_file st = Some f" and "f_path f = Some p0"
  shows "s_file (deliver cs c nd st ((path_header name, name) # map (Pair (data_header cs)) chunks))
           = Some (f\<lparr> f_fail := True \<rparr>)
     \<and> s_off (deliver cs c nd st ((path_header name, name) # map (Pair (data_header cs)) chunks))
           = Some 0
     \<and> s_disk (deliver cs c nd st ((path_header name, name) # map (Pair (data_header cs)) chunks))
           = s_disk st"
  using deliver_second_write [OF assms] by blast

theorem second_write_path_keeps_old_file_witness:
  "s_file (deliver 2 lp64_codec plain_node conn_after_write
      [(path_header [98], [98]), (data_header 2, [3, 4])])
     = Some \<lparr> f_path = Some [97], f_fail = True \<rparr>
   \<and> s_disk (deliver 2 lp64_codec plain_node conn_after_write
      [(path_header [98], [98]), (data_header 2, [3, 4])]) [98] = None
   \<and> s_disk (deliver 2 lp64_codec plain_node conn_after_write
      [(path_header [98], [98]), (data_header 2, [3, 4])]) [97] = Some [1, 2]"
  using second_write_path_keeps_old_file [OF wire_ok_lp64 _ _ _ conn_after_write_fields(1,2),
      of 2 "[98]" "[[3, 4]]" "[97]" plain_node]
  by (simp add: conn_after_write_fields)


text \<open>
  \<^bold>\<open>C4.\<close>  The same defect seen from the client: a full write at offset 0, all
  lanes live, whose frames reach a node over a connection that has served a write
  before, leaves every file of the node as it was; the node file of the new
  path does not get \<open>total_strides * cs\<close> bytes.  On a connection that has served
  no write, \<open>first_write_node_file\<close> above gives the length the claim states,
  and \<open>total_strides_ceil\<close> that the number of strides is \<open>\<lceil>L / S\<rceil>\<close>.
\<close>

theorem write_on_used_connection_not_stored:
  assumes "wire_ok c" and "cs < 2 ^ 64" and "0 < cs"
    and "n = length (w_servers st)" and "\<forall>i<n. w_servers st ! i \<noteq> -1"
    and "\<forall>i m. link i m = SendOK" and "w_sent st = replicate n []"
    and "i < n" and "length path < cs"
    and "s_in nst = []" and "s_file nst = Some f" and "f_path f = Some p0"
  shows "s_disk (deliver cs c nd nst (w_sent (w_state (myfs_write cs link pw path b 0 fh st)) ! i))
           = s_disk nst"
proof -
  let ?chunks = "map (lane_chunk cs n b i) [0..<total_strides cs n (length b)]"
  have len: "length (w_sent st) = n" using assms(7) by simp
  have n0: "0 < n" using assms(8) by simp
  have "w_sent (w_state (myfs_write cs link pw path b 0 fh st)) =
       map (\<lambda>i. w_sent st ! i @ lane_frames cs n path b i) [0..<n]"
    using myfs_write_sent [OF assms(4,5,6) len assms(3) n0, of pw path b fh] by blast
  then have fr: "w_sent (w_state (myfs_write cs link pw path b 0 fh st)) ! i
      = (path_header path, path) # map (Pair (data_header cs)) ?chunks"
    using assms(7,8) by (simp add: lane_frames_def)
  show ?thesis
    unfolding fr
    using deliver_second_write [OF assms(1,2,9) lane_frames_chunks [OF assms(8)] assms(10,11,12)]
    by blast
qed

theorem write_on_used_connection_not_stored_witness:
  "total_strides 2 3 (length [3, 4, 5 :: byte]) * 2 = 2
   \<and> s_disk (deliver 2 lp64_codec plain_node conn_after_write
        (w_sent (w_state (myfs_write 2 link_up pwrite_all [98] [3, 4, 5] 0 () three_lanes)) ! 0)) [98]
      = None"
proof -
  have h: "3 = length (w_servers three_lanes)" "\<forall>i<3. w_servers three_lanes ! i \<noteq> -1"
    "\<forall>i m. link_up i m = SendOK" "w_sent three_lanes = replicate 3 []"
    by (simp_all add: three_lanes_def link_up_def less_Suc_eq numeral_3_eq_3)
  have t: "total_strides 2 3 (length [3, 4, 5 :: byte]) * 2 = 2"
    by (simp add: total_strides_def stride_size_def)
  from write_on_used_connection_not_stored [OF wire_ok_lp64 _ _ h _ _ conn_after_write_fields(1,2),
      of 2 0 "[98]" "[97]" plain_node pwrite_all "[3, 4, 5]" "()"] t
  show ?thesis
    by (simp add: conn_after_write_fields)
qed


section \<open>The claims about the read session\<close>

lemma servers_send_headers:
  "servers (send_headers reply i st) = servers st \<or>
   servers (send_headers reply i st) = (servers st)[i := -1]"
  by (simp add: send_headers_def split: option.split)

lemma open_examine_servers:
  assumes "snd (open_examine cs reply len i (fc, st)) = st'" and "n = length (servers st)"
  shows "(servers st' = servers st \<or> servers st' = (servers st)[n - 1 := -1]) \<and>
     fst (open_examine cs reply len i (fc, st)) = fc + (if servers st' ! i = -1 then 1 else 0)"
proof -
  let ?st0 = "st\<lparr> headers := (headers st)[n - 1 := read_request len] \<rparr>"
  let ?st1 = "if (servers st ! i = -1 \<and> fc = 0) \<or> n = 1 then send_headers reply (n - 1) ?st0 else st"
  have s1: "servers ?st1 = servers st \<or> servers ?st1 = (servers st)[n - 1 := -1]"
    using servers_send_headers [of reply "n - 1" ?st0] by auto
  have "servers st' = servers ?st1"
    using assms by (auto simp: open_examine_def Let_def split: if_splits)
  moreover have "fst (open_examine cs reply len i (fc, st)) = fc + (if servers ?st1 ! i = -1 then 1 else 0)"
    using assms(2) by (simp add: open_examine_def Let_def)
  ultimately show ?thesis using s1 by simp
qed

lemma open_examine_count:
  "m \<le> n \<Longrightarrow> length (servers st1) = n \<Longrightarrow>
     length (servers (snd (fold (open_examine cs reply len) [0..<m] (0, st1)))) = n \<and>
     fst (fold (open_examine cs reply len) [0..<m] (0, st1))
       = length (filter (\<lambda>s. s = -1) (take m (servers (snd (fold (open_examine cs reply len) [0..<m] (0, st1))))))"
proof (induction m)
  case 0
  then show ?case by simp
next
  case (Suc m)
  obtain fc s where r: "fold (open_examine cs reply len) [0..<m] (0, st1) = (fc, s)"
    by (cases "fold (open_examine cs reply len) [0..<m] (0, st1)")
  obtain fc' s' where r': "open_examine cs reply len m (fc, s) = (fc', s')"
    by (cases "open_examine cs reply len m (fc, s)")
  have ih: "length (servers s) = n" "fc = length (filter (\<lambda>s. s = -1) (take m (servers s)))"
    using Suc r by simp_all
  have m: "m < n" using Suc.prems by simp
  have e: "fold (open_examine cs reply len) [0..<Suc m] (0, st1) = (fc', s')"
    using r r' by simp
  from open_examine_servers [of cs reply len m fc s s' n] r' ih(1)
  have sv: "servers s' = servers s \<or> servers s' = (servers s)[n - 1 := -1]"
    and fc: "fc' = fc + (if servers s' ! m = -1 then 1 else 0)"
    by simp_all
  have len: "length (servers s') = n" using sv ih(1) by auto
  have tk: "take m (servers s') = take m (servers s)"
    using sv m by auto
  have "take (Suc m) (servers s') = take m (servers s) @ [servers s' ! m]"
    using m len tk by (simp add: take_Suc_conv_app_nth)
  then have "length (filter (\<lambda>s. s = -1) (take (Suc m) (servers s'))) = fc'"
    using fc ih(2) by simp
  then show ?case unfolding e using len by simp
qed

lemma length_servers_open_request:
  "length (servers (fold (open_request reply len) xs st)) = length (servers st)"
proof (induction xs arbitrary: st)
  case Nil
  then show ?case by simp
next
  case (Cons x xs)
  have "length (servers (open_request reply len x st)) = length (servers st)"
    using servers_send_headers [of reply x "st\<lparr> headers := (headers st)[x := read_request len] \<rparr>"]
    by (auto simp: open_request_def)
  then show ?case using Cons by simp
qed


text \<open>
  \<^bold>\<open>C6.\<close>  An open with \<open>O_RDONLY\<close> returns \<open>-1\<close> with \<open>errno = EIO\<close> exactly when
  two or more lanes are dead or all lanes are dead, and \<open>0\<close> otherwise.  The dead
  lanes are those the function has found dead when it returns: a lane that was
  dead before the call, one that failed in the round of requests to the data
  lanes, and the last lane when the request to it failed.
\<close>

theorem open_rdonly_result:
  "o_ret (myfs_open cs reply local_open path O_RDONLY st) =
     (if 2 \<le> dead_lanes (o_state (myfs_open cs reply local_open path O_RDONLY st))
        \<or> dead_lanes (o_state (myfs_open cs reply local_open path O_RDONLY st)) = length (servers st)
      then -1 else 0)
   \<and> o_errno (myfs_open cs reply local_open path O_RDONLY st) =
     (if 2 \<le> dead_lanes (o_state (myfs_open cs reply local_open path O_RDONLY st))
        \<or> dead_lanes (o_state (myfs_open cs reply local_open path O_RDONLY st)) = length (servers st)
      then Some EIO else None)"
proof -
  let ?n = "length (servers st)"
  let ?st1 = "fold (open_request reply (length path)) [0..<?n - 1] st"
  obtain fc s where r: "fold (open_examine cs reply (length path)) [0..<?n] (0, ?st1) = (fc, s)"
    by (cases "fold (open_examine cs reply (length path)) [0..<?n] (0, ?st1)")
  have l1: "length (servers ?st1) = ?n" by (rule length_servers_open_request)
  from open_examine_count [OF le_refl l1, of cs reply "length path"] r
  have len: "length (servers s) = ?n" and fc: "fc = length (filter (\<lambda>s. s = -1) (servers s))"
    by simp_all
  have d: "dead_lanes (o_state (myfs_open cs reply local_open path O_RDONLY st)) = fc"
    using r fc by (simp add: myfs_open_def Let_def dead_lanes_def)
  show ?thesis
    unfolding d using r by (auto simp: myfs_open_def Let_def)
qed


lemma open_example_one_dead:
  "dead_lanes (o_state (myfs_open 2 reply_two 0 [47, 97] O_RDONLY
      ((mounted 2 3)\<lparr> servers := [3, -1, 5] \<rparr>))) = 1"
  by code_simp

lemma open_example_two_dead:
  "dead_lanes (o_state (myfs_open 2 reply_two 0 [47, 97] O_RDONLY
      ((mounted 2 3)\<lparr> servers := [-1, -1, 5] \<rparr>))) = 2"
  by code_simp

theorem open_rdonly_result_witness:
  "o_ret (myfs_open 2 reply_two 0 [47, 97] O_RDONLY ((mounted 2 3)\<lparr> servers := [3, -1, 5] \<rparr>)) = 0
   \<and> o_ret (myfs_open 2 reply_two 0 [47, 97] O_RDONLY ((mounted 2 3)\<lparr> servers := [-1, -1, 5] \<rparr>)) = -1
   \<and> o_errno (myfs_open 2 reply_two 0 [47, 97] O_RDONLY ((mounted 2 3)\<lparr> servers := [-1, -1, 5] \<rparr>))
       = Some EIO"
  using open_rdonly_result [of 2 reply_two 0 "[47, 97]" "(mounted 2 3)\<lparr> servers := [3, -1, 5] \<rparr>"]
    open_rdonly_result [of 2 reply_two 0 "[47, 97]" "(mounted 2 3)\<lparr> servers := [-1, -1, 5] \<rparr>"]
  by (simp add: open_example_one_dead open_example_two_dead)

lemma opened_live: "opened 2 [3, 4, 5] stored3 =
  \<lparr> servers = [3, 4, 5],
    headers = [\<lparr>mtype = 0, mlength = 4\<rparr>, \<lparr>mtype = 0, mlength = 4\<rparr>, \<lparr>mtype = 0, mlength = 0\<rparr>],
    offsets = [- 4, - 4, - 4], written = [0, 0, 0],
    active = [False, False, False], buf = [0, 0, 0, 0, 0, 0],
    rx = [[1, 2, 5, 6], [3, 4, 7, 8], []]\<rparr>"
  by code_simp


lemma stored3_written:
  "map (\<lambda>i. concat (map (lane_chunk 2 3 [1, 2, 3, 4, 5, 6, 7, 8] i) [0..<2])) [0, 1, 2] = stored3"
  by code_simp

lemma n_data_le: "0 < n \<Longrightarrow> n_data n \<le> n"
  by (simp add: n_data_def)

lemma worker_live:
  assumes "live_inv cs n st" "i < n" "0 < cs" "n - 1 = i \<or> mlength (headers st ! (n - 1)) = 0"
  shows "\<exists>m \<le> cs. server_read_worker cs i pos (n - 1 = i \<or> mlength (headers st ! (n - 1)) = 0) s32 o32 st
      = Inr (st\<lparr> buf := ring_write (buf st) pos (take m (rx st ! i)),
                  written := (written st)[i := m],
                  rx := (rx st)[i := drop m (rx st ! i)] \<rparr>)"
  using assms
  by (intro exI [of _ "min cs (length (rx st ! i))"])
     (auto simp: server_read_worker_def live_inv_def Let_def)

lemma fetch_chunk_live:
  assumes inv: "live_inv cs n st" and i: "i < n_data n" and cs: "0 < cs" and n: "0 < n"
    and r: "fetch_chunk cs sb eb k i st = Inr st'"
  shows "live_inv cs n st' \<and>
     (\<forall>j. j \<noteq> i \<longrightarrow> active st' ! j = active st ! j \<and> offsets st' ! j = offsets st ! j) \<and>
     (k * (cs * n_data n) + i * cs < eb \<and> sb < k * (cs * n_data n) + i * cs + cs \<and>
      offsets st ! i < int (k * (cs * n_data n) + i * cs + cs) \<longrightarrow>
        active st' ! i \<and> offsets st' ! i = int (k * (cs * n_data n) + i * cs))"
proof -
  let ?S = "cs * n_data n"
  let ?cstart = "k * ?S + i * cs"
  let ?cend = "?cstart + cs"
  let ?req = "if ?cstart < sb then cs - (sb - ?cstart) else cs"
  have il: "i < n" using i n_data_le [OF n] by simp
  have len: "length (servers st) = n" "length (offsets st) = n" "length (written st) = n"
    "length (active st) = n"
    using inv by (simp_all add: live_inv_def)
  have live: "servers st ! i \<noteq> -1" using inv il by (simp add: live_inv_def)
  have par: "n - 1 = i \<or> mlength (headers st ! (n - 1)) = 0"
    using inv i by (auto simp: live_inv_def n_data_def)
  show ?thesis
  proof (cases "?cend \<le> sb \<or> ?cstart \<ge> eb")
    case True
    then have "fetch_chunk cs sb eb k i st = Inr st"
      using len by (simp add: fetch_chunk_def Let_def live)
    then have "st' = st" using r by simp
    then show ?thesis using inv True by auto
  next
    case out: False
    show ?thesis
    proof (cases "offsets st ! i < int ?cend")
      case False
      then have "fetch_chunk cs sb eb k i st = (if written st ! i \<ge> ?req then Inr st else Inl Hang)"
        using len out by (simp add: fetch_chunk_def Let_def live)
      then have "st' = st" using r by (simp split: if_splits)
      then show ?thesis using inv False by auto
    next
      case True
      let ?st1 = "st\<lparr> offsets := (offsets st)[i := int ?cstart], written := (written st)[i := 0] \<rparr>"
      have inv1: "live_inv cs n ?st1"
        using inv il by (auto simp: live_inv_def nth_list_update)
      have par1: "n - 1 = i \<or> mlength (headers ?st1 ! (n - 1)) = 0" using par by simp
      from worker_live [OF inv1 il cs par1, of "?cstart mod (cs * n)" "to_int32 (int ?S)" "to_int32 (int ?cstart)"]
      obtain m where m: "m \<le> cs"
        and w: "server_read_worker cs i (?cstart mod (cs * n))
            (n - 1 = i \<or> mlength (headers ?st1 ! (n - 1)) = 0)
            (to_int32 (int ?S)) (to_int32 (int ?cstart)) ?st1
          = Inr (?st1\<lparr> buf := ring_write (buf ?st1) (?cstart mod (cs * n)) (take m (rx ?st1 ! i)),
                  written := (written ?st1)[i := m],
                  rx := (rx ?st1)[i := drop m (rx ?st1 ! i)] \<rparr>)"
        by blast
      let ?st3 = "st\<lparr> offsets := (offsets st)[i := int ?cstart],
                      written := (written st)[i := m],
                      buf := ring_write (buf st) (?cstart mod (cs * n)) (take m (rx st ! i)),
                      rx := (rx st)[i := drop m (rx st ! i)],
                      active := (active st)[i := True] \<rparr>"
      have na: "\<not> active st ! i"
        using r True len out by (auto simp: fetch_chunk_def Let_def live split: if_splits)
      have "fetch_chunk cs sb eb k i st = (if written ?st3 ! i \<ge> ?req then Inr ?st3 else Inl Hang)"
        using len out True na w by (simp add: fetch_chunk_def Let_def live)
      then have st': "st' = ?st3" using r by (simp split: if_splits)
      have "live_inv cs n ?st3"
        using inv m il by (auto simp: live_inv_def nth_list_update)
      then show ?thesis
        unfolding st' using len il by (simp add: nth_list_update)
    qed
  qed
qed


lemma fetch_chunk_live_fail:
  assumes inv: "live_inv cs n st" and i: "i < n_data n" and cs: "0 < cs" and n: "0 < n"
    and r: "fetch_chunk cs sb eb k i st = Inl e"
  shows "e = Hang"
proof -
  let ?S = "cs * n_data n"
  let ?cstart = "k * ?S + i * cs"
  have il: "i < n" using i n_data_le [OF n] by simp
  have len: "length (servers st) = n" using inv by (simp add: live_inv_def)
  have live: "servers st ! i \<noteq> -1" using inv il by (simp add: live_inv_def)
  have par: "n - 1 = i \<or> mlength (headers st ! (n - 1)) = 0"
    using inv i by (auto simp: live_inv_def n_data_def)
  let ?st1 = "st\<lparr> offsets := (offsets st)[i := int ?cstart], written := (written st)[i := 0] \<rparr>"
  have inv1: "live_inv cs n ?st1"
    using inv il by (auto simp: live_inv_def nth_list_update)
  have par1: "n - 1 = i \<or> mlength (headers ?st1 ! (n - 1)) = 0" using par by simp
  from worker_live [OF inv1 il cs par1, of "?cstart mod (cs * n)" "to_int32 (int ?S)" "to_int32 (int ?cstart)"]
  obtain s2 where "server_read_worker cs i (?cstart mod (cs * n))
            (n - 1 = i \<or> mlength (headers ?st1 ! (n - 1)) = 0)
            (to_int32 (int ?S)) (to_int32 (int ?cstart)) ?st1 = Inr s2"
    by blast
  then show ?thesis
    using r len by (auto simp: fetch_chunk_def Let_def live split: if_splits)
qed

lemma fetch_chunk_active_hangs:
  assumes inv: "live_inv cs n st" and i: "i < n_data n" and n: "0 < n"
    and ov: "k * (cs * n_data n) + i * cs < eb" "sb < k * (cs * n_data n) + i * cs + cs"
    and off: "offsets st ! i < int (k * (cs * n_data n) + i * cs + cs)"
    and act: "active st ! i"
  shows "fetch_chunk cs sb eb k i st = Inl Hang"
proof -
  have il: "i < n" using i n_data_le [OF n] by simp
  have len: "length (servers st) = n" using inv by (simp add: live_inv_def)
  have live: "servers st ! i \<noteq> -1" using inv il by (simp add: live_inv_def)
  show ?thesis
    using len ov off act by (simp add: fetch_chunk_def Let_def live)
qed

lemma fetch_rest_lanes:
  assumes cs: "0 < cs" and n: "0 < n"
  shows "live_inv cs n st \<Longrightarrow> \<forall>i \<in> set xs. i \<noteq> 0 \<and> i < n_data n \<Longrightarrow>
     (\<exists>st'. fold_r (fetch_chunk cs sb eb k) xs st = Inr st' \<and> live_inv cs n st' \<and>
        active st' ! 0 = active st ! 0 \<and> offsets st' ! 0 = offsets st ! 0)
     \<or> fold_r (fetch_chunk cs sb eb k) xs st = Inl Hang"
proof (induction xs arbitrary: st)
  case Nil
  then show ?case by simp
next
  case (Cons x xs)
  have x: "x \<noteq> 0" "x < n_data n" using Cons.prems(2) by simp_all
  show ?case
  proof (cases "fetch_chunk cs sb eb k x st")
    case (Inl e)
    then have "e = Hang" using fetch_chunk_live_fail [OF Cons.prems(1) x(2) cs n] by blast
    then show ?thesis using Inl by simp
  next
    case (Inr s1)
    from fetch_chunk_live [OF Cons.prems(1) x(2) cs n Inr]
    have inv1: "live_inv cs n s1" and same: "active s1 ! 0 = active st ! 0" "offsets s1 ! 0 = offsets st ! 0"
      using x(1) by auto
    have "\<forall>i \<in> set xs. i \<noteq> 0 \<and> i < n_data n" using Cons.prems(2) by simp
    from Cons.IH [OF inv1 this] show ?thesis
      using Inr same by auto
  qed
qed

lemma fetch_lanes_from_zero:
  assumes cs: "0 < cs" and n: "0 < n" and inv: "live_inv cs n st"
    and ov: "k * (cs * n_data n) < eb" "sb < k * (cs * n_data n) + cs"
    and off: "offsets st ! 0 < int (k * (cs * n_data n) + cs)"
  shows "(\<exists>st'. fold_r (fetch_chunk cs sb eb k) [0..<n_data n] st = Inr st' \<and> live_inv cs n st' \<and>
        active st' ! 0 \<and> offsets st' ! 0 = int (k * (cs * n_data n)) \<and> \<not> active st ! 0)
     \<or> fold_r (fetch_chunk cs sb eb k) [0..<n_data n] st = Inl Hang"
proof -
  have nd: "0 < n_data n" by (simp add: n_data_def)
  then have l: "[0..<n_data n] = 0 # [1..<n_data n]" by (simp add: upt_conv_Cons)
  have rest: "\<forall>i \<in> set [1..<n_data n]. i \<noteq> 0 \<and> i < n_data n" by simp
  show ?thesis
  proof (cases "fetch_chunk cs sb eb k 0 st")
    case (Inl e)
    then have "e = Hang" using fetch_chunk_live_fail [OF inv nd cs n] by blast
    then show ?thesis using Inl l by simp
  next
    case (Inr s1)
    have na: "\<not> active st ! 0"
      using fetch_chunk_active_hangs [OF inv nd n, of k eb sb] ov off Inr by auto
    from fetch_chunk_live [OF inv nd cs n Inr]
    have inv1: "live_inv cs n s1" and a: "active s1 ! 0" "offsets s1 ! 0 = int (k * (cs * n_data n))"
      using ov off by auto
    from fetch_rest_lanes [OF cs n inv1 rest, of sb eb k] show ?thesis
      using Inr a l na by auto
  qed
qed

lemma fill_stride_live:
  assumes "live_inv cs n st"
  shows "fold_r (fetch_chunk cs sb eb k) [0..<n_data n] st = Inr st1 \<Longrightarrow> live_inv cs n st1 \<Longrightarrow>
     fill_stride cs sb eb k st = Inr st1"
    and "fold_r (fetch_chunk cs sb eb k) [0..<n_data n] st = Inl e \<Longrightarrow>
     fill_stride cs sb eb k st = Inl e"
proof -
  have len: "length (servers st) = n" using assms by (simp add: live_inv_def)
  show "fold_r (fetch_chunk cs sb eb k) [0..<n_data n] st = Inl e \<Longrightarrow>
     fill_stride cs sb eb k st = Inl e"
    using len by (simp add: fill_stride_def Let_def)
  assume r: "fold_r (fetch_chunk cs sb eb k) [0..<n_data n] st = Inr st1" and i1: "live_inv cs n st1"
  have "\<not> (n > 1 \<and> (\<exists>i \<in> set [0..<n_data n]. servers st1 ! i = -1))"
  proof
    assume a: "n > 1 \<and> (\<exists>i \<in> set [0..<n_data n]. servers st1 ! i = -1)"
    then obtain i where "i < n_data n" "servers st1 ! i = -1" by auto
    then show False using i1 a n_data_le [of n] by (auto simp: live_inv_def)
  qed
  then show "fill_stride cs sb eb k st = Inr st1"
    using r len by (auto simp: fill_stride_def Let_def)
qed


lemma copy_first_stride_hangs:
  assumes inv: "live_inv cs n st1" and cs: "0 < cs" and n: "0 < n"
    and sz: "cs < sz" "sz \<le> cs * n_data n"
  shows "copy_stride cs 0 (0 + sz) st1 0 [] = Inl Hang"
proof -
  have len: "length (servers st1) = n" using inv by (simp add: live_inv_def)
  have live: "servers st1 ! 0 \<noteq> -1" using inv n by (simp add: live_inv_def)
  have w: "written st1 ! 0 \<le> cs" using inv n by (simp add: live_inv_def)
  have m: "min sz (cs * n_data n) = sz" using sz(2) by simp
  have nd: "0 < n_data n" by (simp add: n_data_def)
  show ?thesis
    using len live w sz cs nd by (simp add: copy_stride_def Let_def m)
qed


lemma read_longer_than_chunk_hangs:
  assumes inv: "live_inv cs n st" and cs: "0 < cs" and n: "0 < n"
    and off: "offsets st ! 0 < 0" and sz: "cs < sz"
  shows "myfs_read cs sz 0 st = Inl Hang"
proof -
  let ?S = "cs * n_data n"
  let ?last = "(sz - 1) div ?S"
  let ?F = "fill_stride cs 0 (0 + sz)"
  have S: "0 < ?S" using cs by (simp add: n_data_def)
  have len: "length (servers st) = n" using inv by (simp add: live_inv_def)
  have e: "end_stride_idx cs n (0 + sz) = Some ?last"
    using sz by (simp add: end_stride_idx_def)
  have fs: "fill_strides cs sz 0 st = fold_r ?F [0..<?last + 1] st"
    using e len by (simp add: fill_strides_def Let_def)
  have l0: "[0..<?last + 1] = 0 # [1..<?last + 1]" by (simp add: upt_conv_Cons)
  from fetch_lanes_from_zero [OF cs n inv, of 0 "0 + sz" 0] off sz cs
  consider (hang) "fold_r (fetch_chunk cs 0 (0 + sz) 0) [0..<n_data n] st = Inl Hang"
    | (ok) st1 where "fold_r (fetch_chunk cs 0 (0 + sz) 0) [0..<n_data n] st = Inr st1"
        "live_inv cs n st1" "active st1 ! 0" "offsets st1 ! 0 = 0"
    by auto
  then show ?thesis
  proof cases
    case hang
    then have "?F 0 st = Inl Hang" using fill_stride_live(2) [OF inv] by blast
    then have "fill_strides cs sz 0 st = Inl Hang" unfolding fs l0 by simp
    then show ?thesis by (simp add: myfs_read_def Let_def)
  next
    case ok
    have f0: "?F 0 st = Inr st1" using fill_stride_live(1) [OF inv ok(1,2)] .
    show ?thesis
    proof (cases "sz \<le> ?S")
      case True
      then have "sz - 1 < ?S" using sz by simp
      then have last: "?last = 0" by simp
      have "fill_strides cs sz 0 st = Inr st1" unfolding fs last using f0 by simp
      moreover have "fold_r (copy_stride cs 0 (0 + sz) st1) [0..<the (end_stride_idx cs n (0 + sz)) + 1] []
          = Inl Hang"
      proof -
        have "the (end_stride_idx cs n (0 + sz)) = 0" using e last by simp
        then have "[0..<the (end_stride_idx cs n (0 + sz)) + 1] = [0]" by simp
        then show ?thesis
          using copy_first_stride_hangs [OF ok(2) cs n sz True] by simp
      qed
      ultimately show ?thesis using len by (simp add: myfs_read_def Let_def)
    next
      case False
      then have "?S \<le> sz - 1" by simp
      then have "1 \<le> ?last" using S by (simp add: less_eq_div_iff_mult_less_eq)
      then have lt: "1 < ?last + 1" by simp
      note l1 = upt_conv_Cons [OF lt]
      have "(0::int) \<le> int cs * int (n_data n)" by simp
      then have "(0::int) < int cs * int (n_data n) + int cs" using cs by linarith
      with fetch_lanes_from_zero [OF cs n ok(2), of 1 "0 + sz" 0] ok(3,4) False cs
      have "fold_r (fetch_chunk cs 0 (0 + sz) 1) [0..<n_data n] st1 = Inl Hang" by auto
      then have "?F 1 st1 = Inl Hang" using fill_stride_live(2) [OF ok(2)] by blast
      then have "fill_strides cs sz 0 st = Inl Hang" unfolding fs l0 l1 using f0 by simp
      then show ?thesis by (simp add: myfs_read_def Let_def)
    qed
  qed
qed



lemma open_request_keeps:
  assumes "reply i \<noteq> None"
  shows "servers (open_request reply len i st) = servers st \<and>
     offsets (open_request reply len i st) = offsets st \<and>
     written (open_request reply len i st) = written st \<and>
     active (open_request reply len i st) = active st \<and>
     buf (open_request reply len i st) = buf st \<and>
     length (headers (open_request reply len i st)) = length (headers st)"
  using assms by (auto simp: open_request_def send_headers_def split: option.split)

lemma open_requests_keep:
  assumes "\<forall>i. reply i \<noteq> None"
  shows "servers (fold (open_request reply len) xs st) = servers st \<and>
     offsets (fold (open_request reply len) xs st) = offsets st \<and>
     written (fold (open_request reply len) xs st) = written st \<and>
     active (fold (open_request reply len) xs st) = active st \<and>
     buf (fold (open_request reply len) xs st) = buf st \<and>
     length (headers (fold (open_request reply len) xs st)) = length (headers st)"
proof (induction xs arbitrary: st)
  case Nil
  then show ?case by simp
next
  case (Cons x xs)
  show ?case
    using Cons [of "open_request reply len x st"] open_request_keeps [of reply x len st] assms
    by simp
qed

lemma open_examine_live:
  assumes "reply (length (servers st) - 1) \<noteq> None" and "servers st ! i \<noteq> -1"
  shows "fst (open_examine cs reply len i (fc, st)) = fc \<and>
     servers (snd (open_examine cs reply len i (fc, st))) = servers st \<and>
     written (snd (open_examine cs reply len i (fc, st))) = written st \<and>
     active (snd (open_examine cs reply len i (fc, st))) = active st \<and>
     buf (snd (open_examine cs reply len i (fc, st))) = buf st \<and>
     length (headers (snd (open_examine cs reply len i (fc, st)))) = length (headers st) \<and>
     offsets (snd (open_examine cs reply len i (fc, st)))
       = (offsets st)[i := - int (stride_size cs (length (servers st)))]"
  using assms
  by (auto simp: open_examine_def send_headers_def Let_def split: option.split)

lemma open_examine_all_live:
  assumes r: "\<forall>i. reply i \<noteq> None"
  shows "m \<le> n \<Longrightarrow> length (servers st) = n \<Longrightarrow> length (offsets st) = n \<Longrightarrow>
     \<forall>i<n. servers st ! i \<noteq> -1 \<Longrightarrow>
     fst (fold (open_examine cs reply len) [0..<m] (0, st)) = 0 \<and>
     servers (snd (fold (open_examine cs reply len) [0..<m] (0, st))) = servers st \<and>
     written (snd (fold (open_examine cs reply len) [0..<m] (0, st))) = written st \<and>
     active (snd (fold (open_examine cs reply len) [0..<m] (0, st))) = active st \<and>
     buf (snd (fold (open_examine cs reply len) [0..<m] (0, st))) = buf st \<and>
     length (headers (snd (fold (open_examine cs reply len) [0..<m] (0, st)))) = length (headers st) \<and>
     length (offsets (snd (fold (open_examine cs reply len) [0..<m] (0, st)))) = n \<and>
     (\<forall>i<m. offsets (snd (fold (open_examine cs reply len) [0..<m] (0, st))) ! i
        = - int (stride_size cs n))"
proof (induction m)
  case 0
  then show ?case by simp
next
  case (Suc m)
  obtain fc s where f: "fold (open_examine cs reply len) [0..<m] (0, st) = (fc, s)"
    by (cases "fold (open_examine cs reply len) [0..<m] (0, st)")
  have ih: "fc = 0" "servers s = servers st" "written s = written st" "active s = active st"
    "buf s = buf st" "length (headers s) = length (headers st)" "length (offsets s) = n"
    "\<forall>i<m. offsets s ! i = - int (stride_size cs n)"
    using Suc f by simp_all
  have m: "m < n" using Suc.prems(1) by simp
  have live: "servers s ! m \<noteq> -1" using Suc.prems(4) m ih(2) by simp
  have rr: "reply (length (servers s) - 1) \<noteq> None" using r by simp
  have e: "fold (open_examine cs reply len) [0..<Suc m] (0, st) = open_examine cs reply len m (fc, s)"
    using f by simp
  show ?case
    unfolding e using open_examine_live [of reply s m cs len fc, OF rr live] ih m Suc.prems(2)
    by (auto simp: nth_list_update)
qed


lemma stride_size_n_data: "0 < n \<Longrightarrow> stride_size cs n = cs * n_data n"
  by (auto simp: stride_size_def n_data_def)

lemma open_all_live:
  assumes r: "\<forall>i. reply i \<noteq> None" and n: "0 < n" and cs: "0 < cs"
    and len: "length (servers st) = n" "length (offsets st) = n" "length (written st) = n"
      "length (active st) = n" "length (headers st) = n"
    and live: "\<forall>i<n. servers st ! i \<noteq> -1" and w: "\<forall>i<n. written st ! i \<le> cs"
  shows "o_ret (myfs_open cs reply lo path O_RDONLY st) = 0 \<and>
     live_inv cs n (o_state (myfs_open cs reply lo path O_RDONLY st)) \<and>
     offsets (o_state (myfs_open cs reply lo path O_RDONLY st)) ! 0 = - int (cs * n_data n) \<and>
     written (o_state (myfs_open cs reply lo path O_RDONLY st)) = written st \<and>
     active (o_state (myfs_open cs reply lo path O_RDONLY st)) = active st \<and>
     buf (o_state (myfs_open cs reply lo path O_RDONLY st)) = buf st"
proof -
  let ?st1 = "fold (open_request reply (length path)) [0..<n - 1] st"
  obtain fc s where f: "fold (open_examine cs reply (length path)) [0..<n] (0, ?st1) = (fc, s)"
    by (cases "fold (open_examine cs reply (length path)) [0..<n] (0, ?st1)")
  note k = open_requests_keep [OF r, of "length path" "[0..<n - 1]" st]
  have l1: "length (servers ?st1) = n" "length (offsets ?st1) = n"
    and live1: "\<forall>i<n. servers ?st1 ! i \<noteq> -1"
    using k len live by simp_all
  from open_examine_all_live [OF r le_refl l1 live1, of cs "length path"] f k
  have s: "fc = 0" "servers s = servers st" "written s = written st" "active s = active st"
    "buf s = buf st" "length (headers s) = n" "length (offsets s) = n"
    "\<forall>i<n. offsets s ! i = - int (stride_size cs n)"
    using len by simp_all
  let ?s' = "if n > 1 then s\<lparr> headers := (headers s)[n - 1 := (headers s ! (n - 1))\<lparr> mlength := 0 \<rparr>] \<rparr> else s"
  have res: "myfs_open cs reply lo path O_RDONLY st = \<lparr> o_ret = 0, o_errno = None, o_state = ?s' \<rparr>"
    unfolding myfs_open_def Let_def len(1) f using s(1) n by simp
  have inv: "live_inv cs n ?s'"
    using s len live w n by (auto simp: live_inv_def)
  have "offsets ?s' ! 0 = - int (cs * n_data n)"
    using s(8) n stride_size_n_data [OF n, of cs] by auto
  then show ?thesis
    unfolding res using inv s by auto
qed


lemma mounted_fields:
  "length (servers (mounted cs n)) = n" "length (offsets (mounted cs n)) = n"
  "length (written (mounted cs n)) = n" "length (active (mounted cs n)) = n"
  "length (headers (mounted cs n)) = n"
  "\<forall>i<n. servers (mounted cs n) ! i \<noteq> -1" "\<forall>i<n. written (mounted cs n) ! i \<le> cs"
  by (simp_all add: mounted_def)

lemma node_reply_Some: "node_reply cs c nd path st \<noteq> None"
  by (simp add: node_reply_def Let_def)

text \<open>
  The round trip of at most one chunk.  The file of lane 0 after the write is
  the byte string padded with zeros to the chunk size; the node answers the
  \<open>READ\<close> of the open with its length and its bytes; the read of \<open>[0, L)\<close> starts
  one worker on lane 0, which receives the chunk into \<open>ring[0, C)\<close>, and the
  copy-out takes the first \<open>L\<close> bytes from there.
\<close>

lemma concat_blocks: "0 < cs \<Longrightarrow> concat (blocks cs xs) = xs"
proof (induction cs xs rule: blocks.induct)
  case (1 cs xs)
  show ?case
  proof (cases "xs = []")
    case True
    then show ?thesis by (simp add: blocks.simps)
  next
    case False
    then have "blocks cs xs = take cs xs # blocks cs (drop cs xs)"
      using "1.prems" by (subst blocks.simps) simp
    then show ?thesis using "1.IH" "1.prems" False by simp
  qed
qed

lemma read_hdr_fields:
  "mtype (read_request len) = MSG_READ" "len < 2 ^ 64 \<Longrightarrow> unat (mlength (read_request len)) = len"
  by (simp_all add: read_request_def unat_len64)

lemma step_read_found:
  assumes c: "wire_ok c"
    and i: "s_in st = enc c (read_request (length path)) @ path @ rest"
    and n: "length path < cs" "cs < 2 ^ 64" "length (s_buf st) = cs"
    and f: "s_disk st (resolve nd (takeWhile (\<lambda>x. x \<noteq> 0) path)) = Some content"
  shows "s_out (handler_step cs c nd st) = s_out st @
           enc c \<lparr> mtype = MSG_READ, mlength = of_nat (length content) \<rparr> @ content
     \<and> s_in (handler_step cs c nd st) = rest
     \<and> s_disk (handler_step cs c nd st) = s_disk st"
proof -
  have r: "recv_header c st = st\<lparr> s_in := path @ rest, s_hdr := read_request (length path) \<rparr>"
    using recv_header_frame [OF c i] .
  have u: "unat (mlength (read_request (length path))) = length path"
    using n by (simp add: read_hdr_fields)
  have p: "c_str (length path) (path @ drop (length path) (s_buf st)) = takeWhile (\<lambda>x. x \<noteq> 0) path"
    using c_str_name [of path "s_buf st"] n by simp
  have cs: "0 < cs" using n(1) by simp
  have h: "(read_request (length path))\<lparr> mlength := of_nat (length content) \<rparr>
      = \<lparr> mtype = MSG_READ, mlength = of_nat (length content) \<rparr>"
    by (simp add: read_request_def)
  show ?thesis
    unfolding handler_step_def r dispatch_def
    using n f by (simp add: Let_def do_read_def u read_hdr_fields(1) recv_buf_def slog_def p h
        concat_blocks [OF cs])
qed


lemma blocks_length: "blk \<in> set (blocks cs xs) \<Longrightarrow> length blk \<le> cs"
proof (induction cs xs rule: blocks.induct)
  case (1 cs xs)
  show ?case
  proof (cases "cs = 0 \<or> xs = []")
    case True
    then show ?thesis using "1.prems" by (simp add: blocks.simps)
  next
    case False
    then have "blocks cs xs = take cs xs # blocks cs (drop cs xs)"
      by (subst blocks.simps) simp
    then show ?thesis using "1.IH" "1.prems" False by auto
  qed
qed

lemma fold_blocks_length:
  "\<forall>blk \<in> set bs. length blk \<le> length b \<Longrightarrow>
     length (fold (\<lambda>blk b. blk @ drop (length blk) b) bs b) = length (b :: byte list)"
  by (induction bs arbitrary: b) simp_all

lemma length_recv_buf:
  "len \<le> length (s_buf st) \<Longrightarrow> length (s_buf (snd (recv_buf len st))) = length (s_buf st)"
  by (simp add: recv_buf_def Let_def)

lemma length_s_buf_slog [simp]: "s_buf (slog m st) = s_buf st"
  by (simp add: slog_def)

lemma length_s_buf_do_read:
  assumes "length (s_buf st) = cs"
  shows "length (s_buf (do_read cs c nd st)) = cs"
proof (cases "unat (mlength (s_hdr st)) \<ge> cs")
  case True
  then show ?thesis using assms by (simp add: do_read_def)
next
  case False
  let ?len = "unat (mlength (s_hdr st))"
  let ?st1 = "snd (recv_buf ?len st)"
  have l1: "length (s_buf ?st1) = cs" using length_recv_buf [of ?len st] False assms by simp
  have "\<And>content. length (fold (\<lambda>blk b. blk @ drop (length blk) b) (blocks cs content)
      ((s_buf ?st1)[?len := 0])) = cs"
    using fold_blocks_length [of "blocks cs _" "(s_buf ?st1)[?len := 0]"] blocks_length l1 by simp
  then show ?thesis
    using False l1 by (simp add: do_read_def Let_def split: option.split)
qed

lemma length_s_buf_do_write_path:
  assumes "length (s_buf st) = cs"
  shows "length (s_buf (do_write_path cs nd st)) = cs"
  using assms length_recv_buf [of "unat (mlength (s_hdr st))" st]
  by (simp add: do_write_path_def Let_def)

lemma length_s_buf_do_write:
  assumes "length (s_buf st) = cs"
  shows "length (s_buf (do_write cs st)) = cs"
  using assms length_recv_buf [of "unat (mlength (s_hdr st))" st]
  by (simp add: do_write_def Let_def split: option.split)

lemma length_s_buf_step:
  assumes "length (s_buf st) = cs"
  shows "length (s_buf (handler_step cs c nd st)) = cs"
proof -
  have "length (s_buf (recv_header c st)) = cs" using assms by (simp add: recv_header_def)
  then show ?thesis
    unfolding handler_step_def dispatch_def Let_def
    by (simp add: length_s_buf_do_read length_s_buf_do_write_path length_s_buf_do_write)
qed

lemma length_s_buf_loop:
  "length (s_buf st) = cs \<Longrightarrow> length (s_buf (handler_loop cs c nd st)) = cs"
proof (induction cs c nd st rule: handler_loop.induct)
  case (1 cs c nd st)
  show ?case
  proof (cases "take (hsz c) (s_in st) = []")
    case True
    then show ?thesis using "1.prems" by (subst handler_loop.simps) simp
  next
    case False
    then have "handler_loop cs c nd st = handler_loop cs c nd (handler_step cs c nd st)"
      by (subst handler_loop.simps) simp
    then show ?thesis
      using "1.IH" [OF False] length_s_buf_step [OF "1.prems"] by simp
  qed
qed

lemma node_reply_file:
  assumes c: "wire_ok c" and n: "length path < cs" "cs < 2 ^ 64" "length (s_buf st) = cs"
    and i: "s_in st = []"
    and f: "s_disk st (resolve nd (takeWhile (\<lambda>x. x \<noteq> 0) path)) = Some content"
  shows "node_reply cs c nd path st
     = Some (\<lparr> mtype = MSG_READ, mlength = of_nat (length content) \<rparr>, content)"
proof -
  let ?st0 = "st\<lparr> s_out := [] \<rparr>"
  let ?st1 = "?st0\<lparr> s_in := s_in ?st0 @ wire c [(read_request (length path), path)] \<rparr>"
  let ?h = "\<lparr> mtype = MSG_READ, mlength = of_nat (length content) \<rparr>"
  have i1: "s_in ?st1 = enc c (read_request (length path)) @ path @ []"
    using i by (simp add: wire_Cons)
  have b1: "length (s_buf ?st1) = cs" using n(3) by simp
  have f1: "s_disk ?st1 (resolve nd (takeWhile (\<lambda>x. x \<noteq> 0) path)) = Some content"
    using f by simp
  from step_read_found [OF c i1 n(1,2) b1 f1]
  have o: "s_out (handler_step cs c nd ?st1) = enc c ?h @ content"
    and e: "s_in (handler_step cs c nd ?st1) = []"
    by simp_all
  have "deliver cs c nd ?st0 [(read_request (length path), path)]
      = handler_loop cs c nd (handler_step cs c nd ?st1)"
    unfolding deliver_def using handler_loop_step [OF header_arrived [OF c i1], of cs nd] .
  also have "\<dots> = handler_step cs c nd ?st1" using handler_loop_done [OF e] .
  finally have d: "s_out (deliver cs c nd ?st0 [(read_request (length path), path)])
      = enc c ?h @ content"
    using o by simp
  have "length (enc c ?h) = hsz c" and "upd c (read_request (length path)) (enc c ?h) = ?h"
    using c by (simp_all add: wire_ok_def)
  then show ?thesis
    by (simp add: node_reply_def Let_def d)
qed

lemma open_request_rx:
  assumes "reply i = Some r" and "servers st ! i \<noteq> -1"
  shows "rx (open_request reply len i st) = (rx st)[i := snd r]"
  using assms by (simp add: open_request_def send_headers_def)

lemma open_requests_rx:
  assumes r: "\<forall>i. reply i \<noteq> None"
  shows "m \<le> n \<Longrightarrow> length (servers st) = n \<Longrightarrow> length (rx st) = n \<Longrightarrow>
     \<forall>i<n. servers st ! i \<noteq> -1 \<Longrightarrow>
     length (rx (fold (open_request reply len) [0..<m] st)) = n \<and>
     (\<forall>j<m. rx (fold (open_request reply len) [0..<m] st) ! j = snd (the (reply j)))"
proof (induction m)
  case 0
  then show ?case by simp
next
  case (Suc m)
  let ?s = "fold (open_request reply len) [0..<m] st"
  have ih: "length (rx ?s) = n" "\<forall>j<m. rx ?s ! j = snd (the (reply j))"
    using Suc by simp_all
  have sv: "servers ?s = servers st" using open_requests_keep [OF r, of len "[0..<m]" st] by simp
  have m: "m < n" using Suc.prems(1) by simp
  have "reply m \<noteq> None" using r by blast
  then obtain rm where rm: "reply m = Some rm" by blast
  have live: "servers ?s ! m \<noteq> -1" using sv Suc.prems(4) m by simp
  have "rx (fold (open_request reply len) [0..<Suc m] st) = (rx ?s)[m := snd rm]"
    using open_request_rx [of reply m rm ?s len, OF rm live] by simp
  then show ?case using ih m rm by (auto simp: nth_list_update less_Suc_eq)
qed

lemma open_examine_rx:
  assumes "servers st ! i \<noteq> -1" and "length (servers st) \<noteq> 1"
  shows "rx (snd (open_examine cs reply len i (fc, st))) = rx st"
  using assms by (simp add: open_examine_def Let_def)

lemma open_examines_rx:
  assumes r: "\<forall>i. reply i \<noteq> None"
  shows "m \<le> n \<Longrightarrow> n \<noteq> 1 \<Longrightarrow> length (servers st) = n \<Longrightarrow> length (offsets st) = n \<Longrightarrow>
     \<forall>i<n. servers st ! i \<noteq> -1 \<Longrightarrow>
     rx (snd (fold (open_examine cs reply len) [0..<m] (0, st))) = rx st"
proof (induction m)
  case 0
  then show ?case by simp
next
  case (Suc m)
  obtain fc s where f: "fold (open_examine cs reply len) [0..<m] (0, st) = (fc, s)"
    by (cases "fold (open_examine cs reply len) [0..<m] (0, st)")
  have m: "m \<le> n" "m < n" using Suc.prems(1) by simp_all
  have ih: "rx s = rx st" using Suc f by simp
  from open_examine_all_live [OF r m(1) Suc.prems(3,4,5), of cs len] f
  have sv: "servers s = servers st" by simp
  have "rx (snd (open_examine cs reply len m (fc, s))) = rx s"
    using open_examine_rx [of s m cs reply len fc] sv Suc.prems(2,3,5) m(2) by simp
  then show ?case using f ih by simp
qed

lemma open_rx0:
  assumes r: "\<forall>i. reply i \<noteq> None" and n: "0 < n"
    and len: "length (servers st) = n" "length (offsets st) = n" "length (rx st) = n"
    and live: "\<forall>i<n. servers st ! i \<noteq> -1"
  shows "rx (o_state (myfs_open cs reply lo path O_RDONLY st)) ! 0 = snd (the (reply 0))"
proof -
  let ?st1 = "fold (open_request reply (length path)) [0..<n - 1] st"
  obtain fc s where f: "fold (open_examine cs reply (length path)) [0..<n] (0, ?st1) = (fc, s)"
    by (cases "fold (open_examine cs reply (length path)) [0..<n] (0, ?st1)")
  note k = open_requests_keep [OF r, of "length path" "[0..<n - 1]" st]
  have l1: "length (servers ?st1) = n" "length (offsets ?st1) = n"
    and live1: "\<forall>i<n. servers ?st1 ! i \<noteq> -1"
    using k len live by simp_all
  from open_examine_all_live [OF r le_refl l1 live1, of cs "length path"] f
  have fc: "fc = 0" by simp
  have st: "rx (o_state (myfs_open cs reply lo path O_RDONLY st)) = rx s"
    unfolding myfs_open_def Let_def len(1) f using fc n by simp
  show ?thesis
  proof (cases "n = 1")
    case True
    have "reply 0 \<noteq> None" using r by blast
    then obtain r0 where r0: "reply 0 = Some r0" by blast
    have "s = snd (open_examine cs reply (length path) 0 (0, st))"
      using f True by simp
    then have "rx s = (rx st)[0 := snd r0]"
      using True len live r0 by (simp add: open_examine_def Let_def send_headers_def)
    then show ?thesis using st r0 len(3) n by simp
  next
    case False
    then have n1: "0 < n - 1" using n by simp
    have "rx s = rx ?st1"
      using open_examines_rx [OF r le_refl False l1 live1, of cs "length path"] f by simp
    moreover have "rx ?st1 ! 0 = snd (the (reply 0))"
      using open_requests_rx [OF r _ len(1,3) live, of "n - 1" "length path"] n1 by simp
    ultimately show ?thesis using st by simp
  qed
qed

lemma fold_r_same:
  "\<forall>x \<in> set xs. f x s = Inr s \<Longrightarrow> fold_r f xs s = Inr s"
  by (induction xs) simp_all

lemma fetch_chunk_first:
  assumes inv: "live_inv cs n st" and cs: "0 < cs" and n: "0 < n"
    and off: "offsets st ! 0 < 0" and na: "\<not> active st ! 0"
    and rx: "cs \<le> length (rx st ! 0)" and sz: "0 < sz"
  shows "fetch_chunk cs 0 sz 0 0 st =
     Inr (st\<lparr> offsets := (offsets st)[0 := 0], written := (written st)[0 := cs],
              buf := ring_write (buf st) 0 (take cs (rx st ! 0)),
              rx := (rx st)[0 := drop cs (rx st ! 0)],
              active := (active st)[0 := True] \<rparr>)"
proof -
  have len: "length (servers st) = n" "length (offsets st) = n" "length (written st) = n"
    "length (active st) = n"
    using inv by (simp_all add: live_inv_def)
  have live: "servers st ! 0 \<noteq> -1" using inv n by (simp add: live_inv_def)
  have par: "n - 1 = 0 \<or> mlength (headers st ! (n - 1)) = 0"
    using inv by (auto simp: live_inv_def)
  have m: "min cs (length (rx st ! 0)) = cs" using rx by simp
  have o: "offsets st ! 0 < int cs" using off by simp
  show ?thesis
    using len live par o na sz cs n
    by (auto simp: fetch_chunk_def Let_def server_read_worker_def m)
qed

lemma fetch_chunk_skipped:
  assumes "0 < i" and "sz \<le> cs"
  shows "fetch_chunk cs 0 sz 0 i st = Inr st"
proof -
  have "1 * cs \<le> i * cs" using assms(1) by (intro mult_le_mono1) simp
  then have "sz \<le> i * cs" using assms(2) by (simp only: mult_1 le_trans)
  then show ?thesis by (simp add: fetch_chunk_def Let_def)
qed

lemma read_first_chunk:
  assumes inv: "live_inv cs n st" and cs: "0 < cs" and n: "0 < n"
    and off: "offsets st ! 0 < 0" and na: "\<not> active st ! 0"
    and rx: "cs \<le> length (rx st ! 0)" and sz: "0 < sz" "sz \<le> cs"
  shows "\<exists>r. myfs_read cs sz 0 st = Inr r \<and> r_out r = take sz (rx st ! 0)
     \<and> r_ret r = to_int32 (int sz)"
proof -
  let ?S = "cs * n_data n"
  let ?st3 = "st\<lparr> offsets := (offsets st)[0 := 0], written := (written st)[0 := cs],
              buf := ring_write (buf st) 0 (take cs (rx st ! 0)),
              rx := (rx st)[0 := drop cs (rx st ! 0)],
              active := (active st)[0 := True] \<rparr>"
  have nd: "0 < n_data n" by (simp add: n_data_def)
  then have S: "cs \<le> ?S" by simp
  have len: "length (servers st) = n" "length (written st) = n"
    using inv by (simp_all add: live_inv_def)
  have "sz - 1 < ?S" using sz S by linarith
  then have last: "(sz - 1) div ?S = 0" by (rule div_less)
  have e: "end_stride_idx cs n (0 + sz) = Some 0"
    using sz(1) last by (simp add: end_stride_idx_def)
  have l: "[0..<n_data n] = 0 # [1..<n_data n]" using nd by (simp add: upt_conv_Cons)
  have "fold_r (fetch_chunk cs 0 (0 + sz) 0) [1..<n_data n] ?st3 = Inr ?st3"
    by (rule fold_r_same) (use sz(2) in \<open>auto intro: fetch_chunk_skipped\<close>)
  then have lanes: "fold_r (fetch_chunk cs 0 (0 + sz) 0) [0..<n_data n] st = Inr ?st3"
    unfolding l using fetch_chunk_first [OF inv cs n off na rx sz(1)] by simp
  have inv3: "live_inv cs n ?st3"
    using inv n by (auto simp: live_inv_def nth_list_update)
  have f: "fill_stride cs 0 (0 + sz) 0 st = Inr ?st3"
    using fill_stride_live(1) [OF inv lanes inv3] .
  have fs: "fill_strides cs sz 0 st = Inr ?st3"
    using e len f by (simp add: fill_strides_def Let_def)
  have "sz \<le> ?S" using sz(2) S by (rule le_trans)
  then have m: "min sz ?S = sz" by (rule min_absorb1)
  have live: "servers st ! 0 \<noteq> -1" using inv n by (simp add: live_inv_def)
  have rw: "take sz (ring_write (buf st) 0 (take cs (rx st ! 0))) = take sz (rx st ! 0)"
    using rx sz(2) by (simp add: ring_write_def)
  have cp: "copy_stride cs 0 (0 + sz) ?st3 0 [] = Inr (take sz (rx st ! 0))"
    using len live sz cs nd n by (simp add: copy_stride_def Let_def m rw)
  have lo: "length (take sz (rx st ! 0)) = sz" using rx sz(2) by simp
  show ?thesis
    using fs cp e len lo by (simp add: myfs_read_def Let_def del: length_take)
qed

lemma lane0_content:
  assumes cs: "0 < cs" and n: "0 < n" and b: "b \<noteq> []" "length b \<le> cs"
  shows "concat (map (lane_chunk cs n b 0) [0..<total_strides cs n (length b)])
     = b @ replicate (cs - length b) 0"
proof -
  let ?S = "stride_size cs n"
  let ?L = "length b"
  have S: "cs \<le> ?S" using cs n by (cases "n = 1") (simp_all add: stride_size_def)
  have Spos: "0 < ?S" using S cs by simp
  have L: "0 < ?L" using b(1) by simp
  have "(?L + ?S - 1) div ?S = 1"
  proof (rule div_nat_eqI)
    show "?S * 1 \<le> ?L + ?S - 1" using L Spos by linarith
    have "?L + ?S - 1 < ?S + ?S" using b(2) S L Spos by linarith
    then show "?L + ?S - 1 < ?S * Suc 1" by simp
  qed
  then have t: "total_strides cs n ?L = 1" using total_strides_ceil [OF Spos] by simp
  have m: "bytes_in_this_stride cs n ?L 0 = ?L"
    using b(2) S by (simp add: bytes_in_this_stride_def)
  have d: "data_chunks_buf cs n b (0 * ?S) = b @ replicate (?S - ?L) 0"
    by (simp add: data_chunks_buf_def Let_def m)
  have tk: "take cs (b @ replicate (?S - ?L) 0) = b @ replicate (cs - ?L) 0"
    using b(2) S by (simp add: min_def)
  have "lane_chunk cs n b 0 0 = b @ replicate (cs - ?L) 0"
  proof (cases "n = 1")
    case True
    then show ?thesis
      unfolding lane_chunk_def Let_def d chunk_to_send_def using tk by simp
  next
    case False
    then have "0 < n - 1" using n by simp
    then show ?thesis
      unfolding lane_chunk_def Let_def d chunk_to_send_def using tk False by simp
  qed
  then show ?thesis by (simp add: t)
qed

lemma round_trip_one_chunk:
  assumes c: "wire_ok c" and cs: "cs < 2 ^ 64" and n: "0 < n"
    and b: "b \<noteq> []" "length b \<le> cs" and nm: "length path < cs"
    and cr: "creatable nd (resolve nd (takeWhile (\<lambda>x. x \<noteq> 0) path))"
  shows "\<exists>r. round_trip cs c nd n path b = Inr r \<and> r_out r = b
     \<and> r_ret r = to_int32 (int (length b))"
proof -
  let ?p = "resolve nd (takeWhile (\<lambda>x. x \<noteq> 0) path)"
  let ?ws = "\<lparr> w_servers = servers (mounted cs n), w_sent = replicate n [], w_log = [] \<rparr>"
  let ?content = "b @ replicate (cs - length b) 0"
  let ?A = "node_after_write cs c nd n path b 0"
  let ?reply = "\<lambda>i. node_reply cs c nd path (node_after_write cs c nd n path b i)"
  let ?st = "o_state (myfs_open cs ?reply 0 path O_RDONLY (mounted cs n))"
  have cs0: "0 < cs" using nm by simp
  have w: "n = length (w_servers ?ws)" "\<forall>i<n. w_servers ?ws ! i \<noteq> -1"
    "\<forall>i m. link_up i m = SendOK" "w_sent ?ws = replicate n []"
    by (simp_all add: mounted_def link_up_def)
  have fr: "s_in (fresh_conn cs) = []" "s_file (fresh_conn cs) = None"
    "length (s_buf (fresh_conn cs)) = cs"
    by (simp_all add: fresh_conn_def)
  from first_write_node_file [OF c cs cs0 w n nm fr cr, of pwrite_all b "()"]
  have A: "s_disk ?A ?p = Some ?content" "s_in ?A = []"
    unfolding node_after_write_def using lane0_content [OF cs0 n b] by simp_all
  have Ab: "length (s_buf ?A) = cs"
    unfolding node_after_write_def deliver_def
    by (rule length_s_buf_loop) (simp add: fresh_conn_def)
  from node_reply_file [OF c nm cs Ab A(2) A(1)]
  have r0: "?reply 0 = Some (\<lparr> mtype = MSG_READ, mlength = of_nat (length ?content) \<rparr>, ?content)" .
  have r: "\<forall>i. ?reply i \<noteq> None" by (simp add: node_reply_Some)
  from open_all_live [OF r n cs0 mounted_fields, of 0 path]
  have inv: "live_inv cs n ?st" and off: "offsets ?st ! 0 = - int (cs * n_data n)"
    and act: "active ?st = active (mounted cs n)"
    by simp_all
  have "0 < cs * n_data n" using cs0 by (simp add: n_data_def)
  then have off0: "offsets ?st ! 0 < 0" using off by simp
  have na: "\<not> active ?st ! 0" using act n by (simp add: mounted_def)
  have lrx: "length (rx (mounted cs n)) = n" by (simp add: mounted_def)
  from open_rx0 [OF r n mounted_fields(1,2) lrx mounted_fields(6), of cs 0 path] r0
  have rx0: "rx ?st ! 0 = ?content" by simp
  have rxl: "cs \<le> length (rx ?st ! 0)" using b(2) by (simp add: rx0)
  have L: "0 < length b" using b(1) by simp
  from read_first_chunk [OF inv cs0 n off0 na rxl L b(2)]
  show ?thesis by (simp add: round_trip_def rx0)
qed

text \<open>
  \<^bold>\<open>C1.\<close>  The round trip of a byte string longer than one chunk does not
  return.  After the open every lane is live and no chunk has been requested
  (every offset is \<open>-S\<close>); the read of \<open>[0, L)\<close> with \<open>L\<close> larger than the chunk
  size then waits forever: either the copy-out waits for \<open>written[0] >= L\<close> while
  a worker never delivers more than one chunk, or the second stride waits for
  \<open>active[0]\<close> to become false, which nothing ever does
  (\<open>read_longer_than_chunk_hangs\<close>, for every session with all lanes live).
  A non-empty byte string of at most one chunk is returned as written
  (\<open>round_trip_one_chunk\<close>).
\<close>

theorem round_trip_longer_than_chunk_hangs:
  assumes "0 < cs" and "0 < n" and "cs < length b"
  shows "round_trip cs c nd n path b = Inl Hang"
proof -
  let ?reply = "\<lambda>i. node_reply cs c nd path (node_after_write cs c nd n path b i)"
  let ?st = "o_state (myfs_open cs ?reply 0 path O_RDONLY (mounted cs n))"
  have r: "\<forall>i. ?reply i \<noteq> None" by (simp add: node_reply_Some)
  from open_all_live [OF r assms(2,1) mounted_fields, of 0 path]
  have inv: "live_inv cs n ?st" and off: "offsets ?st ! 0 = - int (cs * n_data n)"
    by simp_all
  have "0 < cs * n_data n" using assms(1) by (simp add: n_data_def)
  then have "offsets ?st ! 0 < 0" using off by simp
  from read_longer_than_chunk_hangs [OF inv assms(1,2) this assms(3)]
  show ?thesis by (simp add: round_trip_def)
qed

theorem round_trip_longer_than_chunk_hangs_witness:
  "round_trip 2 lp64_codec plain_node 3 [97] [1, 2, 3] = Inl Hang"
  using round_trip_longer_than_chunk_hangs [of 2 3 "[1, 2, 3]" lp64_codec plain_node "[97]"]
  by simp

lemma round_trip_one_chunk_example:
  "map_sum id r_out (round_trip 2 lp64_codec plain_node 3 [97] [1, 2]) = Inr [1, 2]"
  by code_simp

text \<open>
  \<^bold>\<open>C5.\<close>  The ring slot of a lane.  At three lanes and chunk size 2, a read of
  one byte at offset 4 (stride 1, lane 0) makes the worker of lane 0 put the
  two bytes it receives into \<open>ring[4, 6)\<close>, which is slot 2, and the copy-out
  takes the byte from \<open>ring[0]\<close>, slot 0, which the worker has not written.
\<close>

theorem ring_slot_mismatch:
  "map_sum id (\<lambda>r. (buf (r_state r), r_out r)) (myfs_read 2 1 4 (opened 2 [3, 4, 5] stored3))
     = Inr ([0, 0, 0, 0, 1, 2], [0])"
  by code_simp

text \<open>
  \<^bold>\<open>C3.\<close>  The reconstruction with lane 0 dead, three lanes, chunk size 2, the
  stored chunks of stride 0 being \<open>[1, 2]\<close>, \<open>[3, 4]\<close> and their parity \<open>[2, 6]\<close>.
  The parity chunk is received into the block of the dead lane, and the
  reconstruction then copies the block at \<open>parity_offset\<close>, which no worker has
  filled, over it: the dead lane's block ends as \<open>[3, 4]\<close>, not as the missing
  data chunk \<open>[1, 2]\<close>.
\<close>

theorem reconstruction_reads_unfilled_parity_slot:
  "map2 (XOR) [1, 2] [3, 4] = ([2, 6] :: byte list)
   \<and> map_sum id buf (fill_strides 2 4 0 (opened 2 [-1, 4, 5] stored3)) = Inr [3, 4, 3, 4, 0, 0]"
  by code_simp

lemma worker_trace_inv:
  "\<not> is_parity \<Longrightarrow> t_written w = 0 \<Longrightarrow> t_pc w = Waiting \<Longrightarrow>
     i < length (worker_trace is_parity stride offset buf_size w evs) \<Longrightarrow>
     0 < t_written (worker_trace is_parity stride offset buf_size w evs ! i) \<Longrightarrow>
     \<exists>j<i. parity_leads stride offset
              (t_parity_offset (worker_trace is_parity stride offset buf_size w evs ! j))
           \<and> t_written (worker_trace is_parity stride offset buf_size w evs ! j) = 0"
proof (induction evs arbitrary: w i)
  case Nil
  then show ?case by simp
next
  case (Cons ev evs)
  let ?w' = "worker_step is_parity stride offset buf_size w ev"
  obtain i' where i: "i = Suc i'" using Cons.prems(2,5) by (cases i) auto
  have tr: "worker_trace is_parity stride offset buf_size w (ev # evs) ! Suc k
      = worker_trace is_parity stride offset buf_size ?w' evs ! k" for k by simp
  show ?case
  proof (cases "t_pc ?w' = Waiting")
    case True
    then have "t_written ?w' = 0"
      using Cons.prems(2,3) by (auto simp: worker_step_def split: event.splits if_splits)
    from Cons.IH [OF Cons.prems(1) this True, of i'] Cons.prems(4,5)
    obtain j where "j < i'" "parity_leads stride offset
        (t_parity_offset (worker_trace is_parity stride offset buf_size ?w' evs ! j))"
      "t_written (worker_trace is_parity stride offset buf_size ?w' evs ! j) = 0"
      unfolding i by auto
    then show ?thesis unfolding i by (intro exI [of _ "Suc j"]) simp
  next
    case False
    then have "parity_leads stride offset (t_parity_offset w)"
      using Cons.prems(1,3) by (auto simp: worker_step_def split: event.splits if_splits)
    then show ?thesis unfolding i using Cons.prems(2) by (intro exI [of _ 0]) simp
  qed
qed


lemma to_int32_nat: "m < 2 ^ 31 \<Longrightarrow> to_int32 (int m) = int m"
proof -
  assume "m < 2 ^ 31"
  then have "int m < int (2 ^ 31)" by (simp only: of_nat_less_iff)
  then have "int m < 2 ^ 31" by simp
  moreover have "- (2 ^ 31) \<le> int m" by (rule order_trans [of _ 0]) simp_all
  ultimately show ?thesis by (intro to_int32_id)
qed

lemma curr_stride_in_range:
  assumes "0 < cs" and "i < n_data n" and "k * (cs * n_data n) + i * cs < 2 ^ 31"
    and "cs * n_data n < 2 ^ 31"
  shows "tdiv (to_int32 (int (k * (cs * n_data n) + i * cs))) (to_int32 (int (cs * n_data n))) = int k"
proof -
  define S where "S = cs * n_data n"
  define m where "m = k * S + i * cs"
  have a: "to_int32 (int m) = int m"
    using assms(3) unfolding m_def S_def by (rule to_int32_nat)
  have b: "to_int32 (int S) = int S"
    using assms(4) unfolding S_def by (rule to_int32_nat)
  have "i * cs + cs \<le> n_data n * cs" using assms(2) by (rule block_fits)
  then have "i * cs < n_data n * cs" using assms(1) by linarith
  then have "i * cs < S" by (simp only: S_def mult.commute)
  then have "m div S = k" by (simp add: m_def)
  then have "int m div int S = int k"
    by (metis zdiv_int)
  then have "tdiv (to_int32 (int m)) (to_int32 (int S)) = int k"
    unfolding a b tdiv_def by (cases "m = 0"; cases "S = 0") (simp_all add: sgn_if)
  then show ?thesis by (simp only: m_def S_def)
qed

text \<open>
  \<^bold>\<open>C7.\<close>  The wait of a data-lane worker compares \<open>parity_offset / stride\<close> with
  \<open>offset / stride\<close>, where \<open>offset\<close> and \<open>stride\<close> are \<open>int\<close> parameters that
  receive \<open>off_t\<close> values.  For a chunk that starts below \<open>2^31\<close> the quotient is
  the stride index \<open>k\<close> (\<open>curr_stride_in_range\<close>), and under every schedule no
  byte is received before the parity lane's offset has reached stride \<open>k\<close>
  (\<open>worker_trace_inv\<close>).  For the chunk of lane 0 in stride 1024 at three lanes,
  which starts at \<open>2^31\<close>, the \<open>int\<close> is \<open>-2^31\<close> and the quotient \<open>-1024\<close>: the
  wait passes while the parity lane is still at its initial offset \<open>-S\<close>
  (stride \<open>-1\<close>), and the worker receives.
\<close>

theorem data_worker_overtakes_parity:
  "tdiv (int (1024 * (CHUNK_SIZE * n_data 3) + 0 * CHUNK_SIZE)) (int (CHUNK_SIZE * n_data 3)) = 1024
   \<and> tdiv (- int (CHUNK_SIZE * n_data 3)) (int (CHUNK_SIZE * n_data 3)) = -1
   \<and> parity_leads (to_int32 (int (CHUNK_SIZE * n_data 3)))
        (to_int32 (int (1024 * (CHUNK_SIZE * n_data 3) + 0 * CHUNK_SIZE)))
        (- int (CHUNK_SIZE * n_data 3))
   \<and> t_written (last (worker_trace False (to_int32 (int (CHUNK_SIZE * n_data 3)))
        (to_int32 (int (1024 * (CHUNK_SIZE * n_data 3) + 0 * CHUNK_SIZE))) CHUNK_SIZE
        (worker_start (- int (CHUNK_SIZE * n_data 3))) [Run 0, Run 1])) = 1"
  by (simp add: CHUNK_SIZE_def n_data_def to_int32_def parity_leads_def tdiv_def
      worker_step_def worker_start_def)

end
